theory Spec2Isabelle
  imports Main
begin

section \<open>Data model of \<open>sdk/src/tx/baseTxSender.ts\<close>\<close>

text \<open>
  The class \<open>BaseTxSender\<close> talks to three collaborators that are not part of the file:
  RPC connections, a wallet and the transaction classes of the ledger library. Each
  collaborator is a record whose function fields say how it answers a call (a sum:
  \<open>Inl\<close> is the error it throws or rejects with, \<open>Inr\<close> the value it returns); every call
  the sender makes to a collaborator is also written to a list of events, so that what
  was called, and in which order, can be stated.
\<close>

type_synonym signature = string
type_synonym commitment = string
type_synonym pubkey = string
type_synonym blockhash = string
type_synonym bytes = "nat list"
type_synonym handle = nat

text \<open>
  Everything the file can throw. The first three are raised by \<open>confirmTransaction\<close>
  itself: the \<open>Error\<close> for a signature that \<open>bs58.decode\<close> refuses, the failed
  \<open>assert\<close> on the decoded length, and the \<open>Error\<close> of a call that was not confirmed,
  whose message holds the elapsed time (kept here in milliseconds, the message prints
  it in seconds) and the signature. \<open>MustBeImplementedBySubclass\<close> is the \<open>Error\<close> of
  the base \<open>sendRawTransaction\<close>; \<open>Thrown\<close> is whatever a collaborator raised.
\<close>

datatype error =
    SignatureNotBase58 signature
  | SignatureInvalidLength
  | NotConfirmed int signature
  | MustBeImplementedBySubclass
  | Thrown string

record ConfirmOptions =
  skipPreflight :: "bool option"
  commitment :: "commitment option"
  preflightCommitment :: "commitment option"

record Context =
  slot :: nat

record SignatureResult =
  err :: "string option"

record RpcResponseAndContext =
  rpc_context :: Context
  rpc_value :: SignatureResult

record TxSigAndSlot =
  txSig :: signature
  txSlot :: nat

record Signer =
  signer_publicKey :: pubkey
  signer_secretKey :: bytes

record Transaction =
  feePayer :: "pubkey option"
  recentBlockhash :: "blockhash option"
  instructions :: "string list"
  signatures :: "pubkey list"

record VersionedTransaction =
  v_message :: string
  v_signatures :: "pubkey list"

record Connection =
  rpcEndpoint :: string
  onSignature :: "signature \<Rightarrow> commitment option \<Rightarrow> error + handle"
  getLatestBlockhash :: "commitment option \<Rightarrow> error + blockhash"
  conn_sendRawTransaction :: "bytes \<Rightarrow> ConfirmOptions \<Rightarrow> error + signature"

record IWallet =
  publicKey :: pubkey
  payer :: "Signer option"
  signTransaction :: "Transaction \<Rightarrow> error + Transaction"
  signVersionedTransaction :: "VersionedTransaction \<Rightarrow> error + VersionedTransaction"

text \<open>
  The fields of a \<open>BaseTxSender\<close>. \<open>sendRawTransaction\<close> is the method a subclass has
  to supply; \<open>base_sendRawTransaction\<close> below is what the base class itself does.
\<close>

record Sender =
  connection :: Connection
  wallet :: IWallet
  opts :: ConfirmOptions
  timeout :: nat
  additionalConnections :: "Connection list"
  timeoutCount :: nat
  sendRawTransaction :: "bytes \<Rightarrow> ConfirmOptions \<Rightarrow> error + TxSigAndSlot"

datatype event =
    OnSignature nat signature "commitment option"
  | CallbackInvoked nat SignatureResult Context
  | RemoveSignatureListener nat handle
  | GetLatestBlockhash "commitment option"
  | PartialSign Signer
  | SignVersioned "Signer option list"
  | WalletSignTransaction
  | SendRawTransaction bytes ConfirmOptions
  | ConnectionSendRawTransaction nat bytes ConfirmOptions
  | ConsoleError string
  | ConsoleErrorValue error

definition DEFAULT_TIMEOUT :: nat where
  "DEFAULT_TIMEOUT = 35000"

definition base_sendRawTransaction :: "bytes \<Rightarrow> ConfirmOptions \<Rightarrow> error + TxSigAndSlot" where
  "base_sendRawTransaction rawTransaction os = Inl MustBeImplementedBySubclass"

text \<open>
  The constructor; \<open>opts\<close>, \<open>timeout\<close> and \<open>additionalConnections\<close> are optional
  arguments with the defaults of the source (\<open>AnchorProvider.defaultOptions()\<close> is
  \<open>processed\<close> for both commitments), the counter starts at 0.
\<close>

definition defaultOptions :: ConfirmOptions where
  "defaultOptions =
     \<lparr>skipPreflight = None, commitment = Some ''processed'',
      preflightCommitment = Some ''processed''\<rparr>"

definition new_sender ::
  "Connection \<Rightarrow> IWallet \<Rightarrow> ConfirmOptions option \<Rightarrow> nat option \<Rightarrow> Connection list option
     \<Rightarrow> Sender" where
  "new_sender c w os t acs =
     \<lparr>connection = c, wallet = w,
      opts = (case os of None \<Rightarrow> defaultOptions | Some x \<Rightarrow> x),
      timeout = (case t of None \<Rightarrow> DEFAULT_TIMEOUT | Some ms \<Rightarrow> ms),
      additionalConnections = (case acs of None \<Rightarrow> [] | Some cs \<Rightarrow> cs),
      timeoutCount = 0,
      sendRawTransaction = base_sendRawTransaction\<rparr>"

section \<open>confirmTransaction\<close>

text \<open>
  The state one call of \<open>confirmTransaction\<close> shares with the callbacks it registers:
  the array \<open>subscriptionIds\<close> (an entry is \<open>None\<close> where the source holds
  \<open>undefined\<close>), the variable \<open>response\<close> (\<open>None\<close> for \<open>null\<close>), and the state of the
  promise built for each connection.
\<close>

datatype promise = Pending | Fulfilled | Rejected error

record CallState =
  subscriptionIds :: "handle option list"
  response :: "RpcResponseAndContext option"
  promises :: "promise list"

text \<open>
  What an endpoint does in one synchronous run: it invokes the callback registered for
  the connection of some index with a result and a context, or it queues a promise job
  of its own (\<open>queueMicrotask\<close>, \<open>Promise.resolve().then\<close>), which is again a list of such
  actions.
\<close>

datatype action =
    Invoke nat SignatureResult Context
  | Enqueue "action list"

text \<open>
  What the environment does during one call of \<open>confirmTransaction\<close>: the answer of
  \<open>bs58.decode\<close> (\<open>None\<close> when it throws), the two readings of \<open>Date.now()\<close>, and what the
  endpoints do while the call waits, in three parts. \<open>queued_at_registration\<close> are the
  promise jobs that endpoints queue during the registration loop; they are in the queue
  before \<open>Promise.race\<close> is called. \<open>same_run\<close> is what happens in the rest of the
  synchronous run that called \<open>confirmTransaction\<close>, after the call has reached its
  \<open>await\<close>. \<open>turns\<close> are the later turns of the event loop (the synchronous runs started by
  a message of an endpoint) that come before the timer of \<open>promiseTimeout\<close> fires, in the
  order of arrival. The timer is set to the \<open>timeout\<close> of the sender; which turns come
  before it fires is for the environment to say. \<open>onSignature\<close> itself returns a handle
  or throws, and does not invoke the callback before it returns.
\<close>

type_synonym notification = "nat \<times> SignatureResult \<times> Context"

record ConfirmEnv =
  bs58_decode :: "signature \<Rightarrow> bytes option"
  date_now_start :: int
  date_now_end :: int
  queued_at_registration :: "action list list"
  same_run :: "action list"
  turns :: "action list list"

text \<open>\<open>commitment || this.opts.commitment\<close>: an absent or empty string is falsy.\<close>

definition js_or :: "commitment option \<Rightarrow> commitment option \<Rightarrow> commitment option" where
  "js_or a b = (case a of None \<Rightarrow> b | Some c \<Rightarrow> if c = [] then b else Some c)"

text \<open>
  The body of the \<open>connections.map\<close> callback for one connection: the executor of the
  promise runs at once and calls \<open>onSignature\<close>; a handle is stored in \<open>subscriptionId\<close>
  and the promise stays pending, a throw is caught and rejects the promise, and
  \<open>subscriptionId\<close> stays \<open>undefined\<close>.
\<close>

definition subscribe ::
  "Connection \<Rightarrow> signature \<Rightarrow> commitment option \<Rightarrow> handle option \<times> promise" where
  "subscribe c sg cm =
     (case onSignature c sg cm of
        Inr subscriptionId \<Rightarrow> (Some subscriptionId, Pending)
      | Inl e \<Rightarrow> (None, Rejected e))"

text \<open>\<open>xs[i] = v\<close> on a JavaScript array: beyond the end the array is extended.\<close>

definition array_set :: "'a option list \<Rightarrow> nat \<Rightarrow> 'a option \<Rightarrow> 'a option list" where
  "array_set xs i v =
     (if i < length xs then xs[i := v] else xs @ replicate (i - length xs) None @ [v])"

text \<open>\<open>resolve(null)\<close> settles a pending promise and does nothing to a settled one.\<close>

definition resolve :: "nat \<Rightarrow> promise list \<Rightarrow> promise list" where
  "resolve i ps = (if i < length ps \<and> ps ! i = Pending then ps[i := Fulfilled] else ps)"

text \<open>The callback registered for connection \<open>i\<close>.\<close>

definition callback :: "nat \<Rightarrow> SignatureResult \<Rightarrow> Context \<Rightarrow> CallState \<Rightarrow> CallState" where
  "callback i result context st =
     st\<lparr>subscriptionIds := array_set (subscriptionIds st) i None,
        response := Some \<lparr>rpc_context = context, rpc_value = result\<rparr>,
        promises := resolve i (promises st)\<rparr>"

text \<open>
  An endpoint can only invoke a callback it was given: connection \<open>i\<close> exists and its
  \<open>onSignature\<close> did not throw.
\<close>

definition registered :: "CallState \<Rightarrow> nat \<Rightarrow> bool" where
  "registered st i =
     (i < length (promises st) \<and> (case promises st ! i of Rejected e \<Rightarrow> False | _ \<Rightarrow> True))"

definition notify :: "CallState \<Rightarrow> notification \<Rightarrow> CallState" where
  "notify st n = (case n of (i, result, context) \<Rightarrow>
     if registered st i then callback i result context st else st)"

text \<open>
  The promise jobs of the call. \<open>promiseTimeout\<close> returns
  \<open>Promise.race([...promises, timeoutPromise]).then(...)\<close> and \<open>confirmTransaction\<close> awaits
  it, so three jobs lie between the settling of a promise of the array and the
  statement after the \<open>await\<close>: the reaction of the race to that promise (\<open>Reaction\<close>),
  which settles the race if it is still pending; the \<open>then\<close> callback on the race
  (\<open>ThenJob\<close>), which clears the timer and passes a rejection on; and the continuation of
  the \<open>await\<close> (\<open>Resume\<close>). Each carries the outcome: \<open>None\<close> for \<open>null\<close>, \<open>Some e\<close> for a
  rejection with \<open>e\<close>. \<open>EnvJob\<close> is a job queued by an endpoint.
\<close>

datatype job =
    Reaction "error option"
  | ThenJob "error option"
  | Resume "error option"
  | EnvJob "action list"

text \<open>
  The progress of the wait: the state shared with the callbacks, and the callback
  invocations made so far, in order.
\<close>

record Progress =
  call :: CallState
  invoked :: "notification list"

text \<open>
  One action of an endpoint, on the progress and the queue of promise jobs. Invoking a
  callback runs it; when its \<open>resolve(null)\<close> settles the promise, the reaction of the
  race to that promise is queued.
\<close>

fun act :: "action \<Rightarrow> Progress \<times> job list \<Rightarrow> Progress \<times> job list" where
  "act (Invoke i result context) (p, q) =
     (if registered (call p) i
      then (\<lparr>call = callback i result context (call p),
             invoked = invoked p @ [(i, result, context)]\<rparr>,
            if promises (call p) ! i = Pending then q @ [Reaction None] else q)
      else (p, q))"
| "act (Enqueue as) (p, q) = (p, q @ [EnvJob as])"

definition run_actions :: "action list \<Rightarrow> Progress \<times> job list \<Rightarrow> Progress \<times> job list" where
  "run_actions as pq = foldl (\<lambda>x a. act a x) pq as"

text \<open>Bounds on the jobs an action or a job can still cause, for the termination of \<open>drain\<close>.\<close>

fun action_weight :: "action \<Rightarrow> nat" where
  "action_weight (Invoke i result context) = 4"
| "action_weight (Enqueue as) = 2 + sum_list (map action_weight as)"

fun job_weight :: "job \<Rightarrow> nat" where
  "job_weight (Reaction outcome) = 3"
| "job_weight (ThenJob outcome) = 2"
| "job_weight (Resume outcome) = 1"
| "job_weight (EnvJob as) = 1 + sum_list (map action_weight as)"

text \<open>
  The queue of promise jobs is emptied first in, first out, until the continuation of
  the \<open>await\<close> runs: the result is then the outcome the call resumes with. When the
  queue is empty before that, the turn has ended and the call still waits (\<open>None\<close>).
  The flag says whether the race is settled; it is returned with the progress.
\<close>

function drain :: "bool \<Rightarrow> job list \<Rightarrow> Progress \<Rightarrow> error option option \<times> bool \<times> Progress" where
  "drain settled [] p = (None, settled, p)"
| "drain settled (Resume outcome # q) p = (Some outcome, settled, p)"
| "drain settled (Reaction outcome # q) p =
     (if settled then drain True q p else drain True (q @ [ThenJob outcome]) p)"
| "drain settled (ThenJob outcome # q) p = drain settled (q @ [Resume outcome]) p"
| "drain settled (EnvJob as # q) p =
     (case run_actions as (p, q) of (p', q') \<Rightarrow> drain settled q' p')"
  by pat_completeness auto
termination
proof (relation "measure (\<lambda>(settled, q, p). sum_list (map job_weight q))")
  show "wf (measure (\<lambda>(settled, q, p). sum_list (map job_weight q)))"
    by simp
next
  fix settled :: bool and outcome :: "error option" and q :: "job list" and p :: Progress
  assume "settled"
  show "((True, q, p), settled, Reaction outcome # q, p)
          \<in> measure (\<lambda>(settled, q, p). sum_list (map job_weight q))"
    by simp
next
  fix settled :: bool and outcome :: "error option" and q :: "job list" and p :: Progress
  assume "\<not> settled"
  show "((True, q @ [ThenJob outcome], p), settled, Reaction outcome # q, p)
          \<in> measure (\<lambda>(settled, q, p). sum_list (map job_weight q))"
    by simp
next
  fix settled :: bool and outcome :: "error option" and q :: "job list" and p :: Progress
  show "((settled, q @ [Resume outcome], p), settled, ThenJob outcome # q, p)
          \<in> measure (\<lambda>(settled, q, p). sum_list (map job_weight q))"
    by simp
next
  fix settled :: bool and as :: "action list" and q ya :: "job list" and pa xa :: Progress
  assume run: "(xa, ya) = run_actions as (pa, q)"
  have one: "sum_list (map job_weight (snd (act a pq))) + 1
               \<le> sum_list (map job_weight (snd pq)) + action_weight a" for a pq
    by (cases a; cases pq) simp_all
  have all: "sum_list (map job_weight (snd (foldl (\<lambda>x a. act a x) pq bs)))
               \<le> sum_list (map job_weight (snd pq)) + sum_list (map action_weight bs)" for bs pq
  proof (induction bs arbitrary: pq)
    case Nil
    then show ?case by simp
  next
    case (Cons b bs)
    show ?case using Cons.IH [of "act b pq"] one [of b pq] by simp
  qed
  have "sum_list (map job_weight ya) \<le> sum_list (map job_weight q) + sum_list (map action_weight as)"
    using all [of "(pa, q)" as] run [symmetric] by (simp add: run_actions_def)
  then show "((settled, ya, xa), settled, EnvJob as # q, pa)
          \<in> measure (\<lambda>(settled, q, p). sum_list (map job_weight q))"
    by simp
qed

text \<open>
  The wait of \<open>promiseTimeout\<close>. Each turn runs its actions and then the promise jobs
  they caused. A turn that ends without the call resuming has not settled the race
  (settling it queues the jobs that resume the call), so the next one starts with the
  race pending. When no turn is left the timer fires: it resolves the timeout promise
  with \<open>null\<close>, and the three jobs that follow, with no code of an endpoint between
  them, resume the call.
\<close>

fun run_turns :: "action list list \<Rightarrow> Progress \<Rightarrow> error option \<times> Progress" where
  "run_turns [] p = (None, p)"
| "run_turns (t # ts) p =
     (case run_actions t (p, []) of (p1, q) \<Rightarrow>
        (case drain False q p1 of
           (Some outcome, settled, p') \<Rightarrow> (outcome, p')
         | (None, settled, p') \<Rightarrow> run_turns ts p'))"

text \<open>
  The reactions that \<open>Promise.race\<close> queues at once, for the promises of its array that
  are settled when it is called, in the order of the array.
\<close>

fun settled_reactions :: "promise list \<Rightarrow> job list" where
  "settled_reactions [] = []"
| "settled_reactions (Pending # ps) = settled_reactions ps"
| "settled_reactions (Fulfilled # ps) = Reaction None # settled_reactions ps"
| "settled_reactions (Rejected e # ps) = Reaction (Some e) # settled_reactions ps"

text \<open>
  \<open>promiseTimeout\<close>. When \<open>confirmTransaction\<close> reaches its \<open>await\<close> the queue holds the
  jobs that endpoints queued during registration and, behind them, the reactions that
  the race queued for the promises already rejected. The rest of the run that called
  \<open>confirmTransaction\<close> comes next, then the queue is emptied; if that does not resume
  the call, the later turns follow.
\<close>

definition promiseTimeout ::
  "action list list \<Rightarrow> action list \<Rightarrow> action list list \<Rightarrow> CallState \<Rightarrow> error option \<times> Progress" where
  "promiseTimeout queued rest ts st =
     (case run_actions rest
             (\<lparr>call = st, invoked = []\<rparr>, map EnvJob queued @ settled_reactions (promises st)) of
        (p1, q1) \<Rightarrow>
          (case drain False q1 p1 of
             (Some outcome, settled, p) \<Rightarrow> (outcome, p)
           | (None, settled, p) \<Rightarrow> run_turns ts p))"

text \<open>
  The \<open>finally\<close> block: every entry of \<open>subscriptionIds\<close> that is truthy (a number other
  than 0) is removed from the connection of the same index.
\<close>

fun teardown :: "nat \<Rightarrow> handle option list \<Rightarrow> event list" where
  "teardown i [] = []"
| "teardown i (subscriptionId # ids) =
     (case subscriptionId of
        None \<Rightarrow> teardown (Suc i) ids
      | Some h \<Rightarrow> if h \<noteq> 0 then RemoveSignatureListener i h # teardown (Suc i) ids
                  else teardown (Suc i) ids)"

text \<open>The event of a callback invocation.\<close>

fun notified :: "notification \<Rightarrow> event" where
  "notified (i, result, context) = CallbackInvoked i result context"

text \<open>
  \<open>confirmTransaction\<close> gives the value returned or the error thrown, the sender after
  the call, and what happened in order: the \<open>onSignature\<close> calls, the callbacks invoked
  before the call resumed, and the \<open>removeSignatureListener\<close> calls.
\<close>

definition confirmTransaction ::
  "ConfirmEnv \<Rightarrow> signature \<Rightarrow> commitment option \<Rightarrow> Sender
     \<Rightarrow> (error + RpcResponseAndContext) \<times> Sender \<times> event list" where
  "confirmTransaction env sg cm s =
     (case bs58_decode env sg of
        None \<Rightarrow> (Inl (SignatureNotBase58 sg), s, [])
      | Some decodedSignature \<Rightarrow>
          if length decodedSignature \<noteq> 64 then (Inl SignatureInvalidLength, s, [])
          else
            let subscriptionCommitment = js_or cm (commitment (opts s));
                connections = connection s # additionalConnections s;
                subs = map (\<lambda>c. subscribe c sg subscriptionCommitment) connections;
                st0 = \<lparr>subscriptionIds = map fst subs, response = None, promises = map snd subs\<rparr>;
                registration = map (\<lambda>i. OnSignature i sg subscriptionCommitment) [0..<length connections];
                raced = promiseTimeout (queued_at_registration env) (same_run env) (turns env) st0;
                st1 = call (snd raced);
                trace = registration @ map notified (invoked (snd raced))
                  @ teardown 0 (subscriptionIds st1)
            in (case fst raced of
                  Some e \<Rightarrow> (Inl e, s, trace)
                | None \<Rightarrow>
                    (case response st1 of
                       None \<Rightarrow>
                         (Inl (NotConfirmed (date_now_end env - date_now_start env) sg),
                          s\<lparr>timeoutCount := timeoutCount s + 1\<rparr>, trace)
                     | Some r \<Rightarrow> (Inr r, s, trace))))"

text \<open>\<open>getTimestamp\<close> returns the reading of the clock it is given.\<close>

definition getTimestamp :: "int \<Rightarrow> int" where
  "getTimestamp now = now"

definition getTimeoutCount :: "Sender \<Rightarrow> nat" where
  "getTimeoutCount s = timeoutCount s"

section \<open>Preparing and sending\<close>

text \<open>
  The methods of the transaction classes that the sender calls, each of which may
  throw: \<open>Transaction.partialSign\<close> and \<open>serialize\<close>, \<open>VersionedTransaction.sign\<close> and
  \<open>serialize\<close>, and the compilation of a \<open>TransactionMessage\<close> to a version-0 message
  (payer key, recent blockhash, instructions, lookup tables).
\<close>

record TxLib =
  partialSign :: "Signer \<Rightarrow> Transaction \<Rightarrow> error + Transaction"
  serialize :: "Transaction \<Rightarrow> error + bytes"
  v_sign :: "Signer option list \<Rightarrow> VersionedTransaction \<Rightarrow> error + VersionedTransaction"
  v_serialize :: "VersionedTransaction \<Rightarrow> error + bytes"
  compileToV0Message :: "pubkey \<Rightarrow> blockhash \<Rightarrow> string list \<Rightarrow> string list \<Rightarrow> error + string"

text \<open>\<open>additionalSigners.filter((s) => s !== undefined)\<close>.\<close>

fun defined_signers :: "Signer option list \<Rightarrow> Signer list" where
  "defined_signers [] = []"
| "defined_signers (None # xs) = defined_signers xs"
| "defined_signers (Some kp # xs) = kp # defined_signers xs"

text \<open>
  The \<open>forEach\<close> over the signers: each \<open>tx.partialSign(kp)\<close> changes the transaction
  in place; a throw ends the loop. The result is the outcome, the transaction object
  as the loop left it, and the calls made.
\<close>

fun partialSignAll ::
  "TxLib \<Rightarrow> Signer list \<Rightarrow> Transaction \<Rightarrow> (error + unit) \<times> Transaction \<times> event list" where
  "partialSignAll lib [] tx = (Inr (), tx, [])"
| "partialSignAll lib (kp # kps) tx =
     (case partialSign lib kp tx of
        Inl e \<Rightarrow> (Inl e, tx, [PartialSign kp])
      | Inr tx' \<Rightarrow>
          (case partialSignAll lib kps tx' of
             (r, tx'', evs) \<Rightarrow> (r, tx'', PartialSign kp # evs)))"

text \<open>
  \<open>prepareTx\<close> returns the signed transaction (or the error), the caller's transaction
  object as this method left it, and the calls it made.
\<close>

definition prepareTx ::
  "TxLib \<Rightarrow> Transaction \<Rightarrow> Signer option list \<Rightarrow> ConfirmOptions \<Rightarrow> Sender
     \<Rightarrow> (error + Transaction) \<times> Transaction \<times> event list" where
  "prepareTx lib tx additionalSigners os s =
     (let tx1 = tx\<lparr>feePayer := Some (publicKey (wallet s))\<rparr>;
          fetch = [GetLatestBlockhash (preflightCommitment os)]
      in case getLatestBlockhash (connection s) (preflightCommitment os) of
           Inl e \<Rightarrow> (Inl e, tx1, fetch)
         | Inr bh \<Rightarrow>
             (case partialSignAll lib (defined_signers additionalSigners)
                     (tx1\<lparr>recentBlockhash := Some bh\<rparr>) of
                (Inl e, tx2, evs) \<Rightarrow> (Inl e, tx2, fetch @ evs)
              | (Inr u, tx2, evs) \<Rightarrow>
                  (signTransaction (wallet s) tx2, tx2, fetch @ evs @ [WalletSignTransaction])))"

definition send ::
  "TxLib \<Rightarrow> Transaction \<Rightarrow> Signer option list option \<Rightarrow> ConfirmOptions option \<Rightarrow> bool option
     \<Rightarrow> Sender \<Rightarrow> (error + TxSigAndSlot) \<times> Transaction \<times> event list" where
  "send lib tx additionalSigners os preSigned s =
     (let signers = (case additionalSigners of None \<Rightarrow> [] | Some xs \<Rightarrow> xs);
          os' = (case os of None \<Rightarrow> opts s | Some x \<Rightarrow> x);
          prepared = (if preSigned = Some True then (Inr tx, tx, [])
                      else prepareTx lib tx signers os' s)
      in case prepared of
           (Inl e, tx', evs) \<Rightarrow> (Inl e, tx', evs)
         | (Inr signedTx, tx', evs) \<Rightarrow>
             (case serialize lib signedTx of
                Inl e \<Rightarrow> (Inl e, tx', evs)
              | Inr raw \<Rightarrow>
                  (sendRawTransaction s raw os', tx', evs @ [SendRawTransaction raw os'])))"

definition getVersionedTransaction ::
  "TxLib \<Rightarrow> string list \<Rightarrow> string list \<Rightarrow> Signer option list option \<Rightarrow> ConfirmOptions option
     \<Rightarrow> Sender \<Rightarrow> (error + VersionedTransaction) \<times> event list" where
  "getVersionedTransaction lib ixs lookupTableAccounts additionalSigners os s =
     (let os' = (case os of None \<Rightarrow> opts s | Some x \<Rightarrow> x);
          fetch = [GetLatestBlockhash (preflightCommitment os')]
      in case getLatestBlockhash (connection s) (preflightCommitment os') of
           Inl e \<Rightarrow> (Inl e, fetch)
         | Inr bh \<Rightarrow>
             (case compileToV0Message lib (publicKey (wallet s)) bh ixs lookupTableAccounts of
                Inl e \<Rightarrow> (Inl e, fetch)
              | Inr message \<Rightarrow> (Inr \<lparr>v_message = message, v_signatures = []\<rparr>, fetch)))"

text \<open>The \<open>forEach\<close> of the last branch of \<open>sendVersionedTransaction\<close>: \<open>tx.sign([kp])\<close>.\<close>

fun signEach ::
  "TxLib \<Rightarrow> Signer list \<Rightarrow> VersionedTransaction
     \<Rightarrow> (error + unit) \<times> VersionedTransaction \<times> event list" where
  "signEach lib [] tx = (Inr (), tx, [])"
| "signEach lib (kp # kps) tx =
     (case v_sign lib [Some kp] tx of
        Inl e \<Rightarrow> (Inl e, tx, [SignVersioned [Some kp]])
      | Inr tx' \<Rightarrow>
          (case signEach lib kps tx' of
             (r, tx'', evs) \<Rightarrow> (r, tx'', SignVersioned [Some kp] # evs)))"

definition sendVersionedTransaction ::
  "TxLib \<Rightarrow> VersionedTransaction \<Rightarrow> Signer option list option \<Rightarrow> ConfirmOptions option
     \<Rightarrow> bool option \<Rightarrow> Sender
     \<Rightarrow> (error + TxSigAndSlot) \<times> VersionedTransaction \<times> event list" where
  "sendVersionedTransaction lib tx additionalSigners os preSigned s =
     (let signed =
            (if preSigned = Some True then (Inr tx, tx, [])
             else case payer (wallet s) of
               Some p \<Rightarrow>
                 (let signers = (case additionalSigners of None \<Rightarrow> [] | Some xs \<Rightarrow> xs) @ [Some p]
                  in case v_sign lib signers tx of
                       Inl e \<Rightarrow> (Inl e, tx, [SignVersioned signers])
                     | Inr tx' \<Rightarrow> (Inr tx', tx', [SignVersioned signers]))
             | None \<Rightarrow>
                 (case signEach lib
                         (case additionalSigners of None \<Rightarrow> [] | Some xs \<Rightarrow> defined_signers xs) tx of
                    (Inl e, tx', evs) \<Rightarrow> (Inl e, tx', evs)
                  | (Inr u, tx', evs) \<Rightarrow>
                      (signVersionedTransaction (wallet s) tx', tx', evs @ [WalletSignTransaction])));
          os' = (case os of None \<Rightarrow> opts s | Some x \<Rightarrow> x)
      in case signed of
           (Inl e, tx', evs) \<Rightarrow> (Inl e, tx', evs)
         | (Inr signedTx, tx', evs) \<Rightarrow>
             (case v_serialize lib signedTx of
                Inl e \<Rightarrow> (Inl e, tx', evs)
              | Inr raw \<Rightarrow>
                  (sendRawTransaction s raw os', tx', evs @ [SendRawTransaction raw os'])))"

section \<open>Additional connections\<close>

text \<open>
  \<open>connection.sendRawTransaction(rawTx, opts).catch(...)\<close> for one connection: the
  promise returned by \<open>catch\<close>, with what its handler wrote to the console. A
  rejection is handled by the two \<open>console.error\<close> calls and the promise is fulfilled.
\<close>

definition send_and_catch ::
  "Connection \<Rightarrow> bytes \<Rightarrow> ConfirmOptions \<Rightarrow> (error + unit) \<times> event list" where
  "send_and_catch c rawTx os =
     (case conn_sendRawTransaction c rawTx os of
        Inr sg \<Rightarrow> (Inr (), [])
      | Inl e \<Rightarrow>
          (Inr (),
           [ConsoleError (''error sending tx to additional connection '' @ rpcEndpoint c),
            ConsoleErrorValue e]))"

text \<open>
  \<open>sendToAdditionalConnections\<close> returns \<open>void\<close> without awaiting the promises of the
  \<open>map\<close>. The model gives the value returned to the caller, the sender after the
  call, the rejections no handler took (a promise of the \<open>map\<close> that ended rejected),
  and the calls made: the sends in the order of the list, then the console output of
  the handlers, here in the order of the list as well.
\<close>

definition sendToAdditionalConnections ::
  "bytes \<Rightarrow> ConfirmOptions \<Rightarrow> Sender \<Rightarrow> (error + unit) \<times> Sender \<times> error list \<times> event list" where
  "sendToAdditionalConnections rawTx os s =
     (let settled = map (\<lambda>c. send_and_catch c rawTx os) (additionalConnections s)
      in (Inr (), s,
          concat (map (\<lambda>p. case fst p of Inl e \<Rightarrow> [e] | Inr u \<Rightarrow> []) settled),
          map (\<lambda>i. ConnectionSendRawTransaction i rawTx os) [0..<length (additionalConnections s)]
          @ concat (map snd settled)))"

text \<open>
  \<open>addAdditionalConnection\<close> compares the \<open>_rpcEndpoint\<close> of each additional connection
  with the \<open>rpcEndpoint\<close> of the new one; the second is the getter of the first, so both
  are the field \<open>rpcEndpoint\<close> here. The primary connection is not looked at.
\<close>

definition addAdditionalConnection :: "Connection \<Rightarrow> Sender \<Rightarrow> Sender" where
  "addAdditionalConnection newConnection s =
     (let alreadyUsingConnection =
            (length (filter (\<lambda>c. rpcEndpoint c = rpcEndpoint newConnection)
                       (additionalConnections s)) > 0)
      in if \<not> alreadyUsingConnection
         then s\<lparr>additionalConnections := additionalConnections s @ [newConnection]\<rparr>
         else s)"

section \<open>The operations of a sender\<close>

text \<open>
  One constructor for each method of the class, with its arguments and the answers of
  the environment; \<open>exec\<close> is the sender that the method leaves behind. Only
  \<open>confirmTransaction\<close> and \<open>addAdditionalConnection\<close> assign to a field of \<open>this\<close>.
\<close>

datatype operation =
    OpSend TxLib Transaction "Signer option list option" "ConfirmOptions option" "bool option"
  | OpPrepareTx TxLib Transaction "Signer option list" ConfirmOptions
  | OpGetVersionedTransaction TxLib "string list" "string list" "Signer option list option"
      "ConfirmOptions option"
  | OpSendVersionedTransaction TxLib VersionedTransaction "Signer option list option"
      "ConfirmOptions option" "bool option"
  | OpSendRawTransaction bytes ConfirmOptions
  | OpConfirmTransaction ConfirmEnv signature "commitment option"
  | OpGetTimestamp
  | OpSendToAdditionalConnections bytes ConfirmOptions
  | OpAddAdditionalConnection Connection
  | OpGetTimeoutCount

fun exec :: "operation \<Rightarrow> Sender \<Rightarrow> Sender" where
  "exec (OpConfirmTransaction env sg cm) s = fst (snd (confirmTransaction env sg cm s))"
| "exec (OpAddAdditionalConnection c) s = addAdditionalConnection c s"
| "exec (OpSendToAdditionalConnections rawTx os) s = fst (snd (sendToAdditionalConnections rawTx os s))"
| "exec other s = s"

fun run :: "operation list \<Rightarrow> Sender \<Rightarrow> Sender" where
  "run [] s = s"
| "run (x # xs) s = run xs (exec x s)"

section \<open>Vocabulary of the properties\<close>

text \<open>
  The connections of one call in the order of the source, primary first, and what
  each answers to \<open>onSignature\<close> for the signature and the effective commitment.
\<close>

definition all_connections :: "Sender \<Rightarrow> Connection list" where
  "all_connections s = connection s # additionalConnections s"

definition answers :: "Sender \<Rightarrow> signature \<Rightarrow> commitment option \<Rightarrow> (error + handle) list" where
  "answers s sg cm =
     map (\<lambda>c. onSignature c sg (js_or cm (commitment (opts s)))) (all_connections s)"

text \<open>The two checks on the signature: it decodes, and to 64 bytes.\<close>

definition valid_signature :: "ConfirmEnv \<Rightarrow> signature \<Rightarrow> bool" where
  "valid_signature env sg =
     (case bs58_decode env sg of None \<Rightarrow> False | Some b \<Rightarrow> length b = 64)"

text \<open>The \<open>onSignature\<close> calls of the registration loop, one for each connection.\<close>

definition registrations :: "Sender \<Rightarrow> signature \<Rightarrow> commitment option \<Rightarrow> event list" where
  "registrations s sg cm =
     map (\<lambda>i. OnSignature i sg (js_or cm (commitment (opts s))))
       [0..<length (all_connections s)]"

text \<open>
  What the registration loop stores for an answer, the promise it builds for it, the
  first thrown error of a list of answers, and whether an answer is a handle.
\<close>

fun recorded :: "error + handle \<Rightarrow> handle option" where
  "recorded (Inr h) = Some h"
| "recorded (Inl e) = None"

fun promise_of :: "error + handle \<Rightarrow> promise" where
  "promise_of (Inr h) = Pending"
| "promise_of (Inl e) = Rejected e"

fun first_error :: "(error + 'a) list \<Rightarrow> error option" where
  "first_error [] = None"
| "first_error (Inl e # xs) = Some e"
| "first_error (Inr v # xs) = first_error xs"

fun succeeded :: "error + handle \<Rightarrow> bool" where
  "succeeded (Inr h) = True"
| "succeeded (Inl e) = False"

text \<open>
  The callbacks invoked before a call resumed, read off what happened in it, and the
  response a callback stores for a notification.
\<close>

fun callbacks_of :: "event list \<Rightarrow> notification list" where
  "callbacks_of [] = []"
| "callbacks_of (CallbackInvoked i result context # evs) = (i, result, context) # callbacks_of evs"
| "callbacks_of (ev # evs) = callbacks_of evs"

definition payload :: "notification \<Rightarrow> RpcResponseAndContext" where
  "payload x = \<lparr>rpc_context = snd (snd x), rpc_value = fst (snd x)\<rparr>"

text \<open>
  The removals expected at the end of a call, in the order of the connections: one
  for every handle returned at registration whose callback is not in \<open>fired\<close>.
\<close>

definition expected_teardown :: "(error + handle) list \<Rightarrow> nat set \<Rightarrow> event list" where
  "expected_teardown as fired =
     concat (map (\<lambda>i. case as ! i of
                          Inr h \<Rightarrow> if i \<in> fired then [] else [RemoveSignatureListener i h]
                        | Inl e \<Rightarrow> []) [0..<length as])"

fun is_removal :: "event \<Rightarrow> bool" where
  "is_removal (RemoveSignatureListener i h) = True"
| "is_removal other = False"

text \<open>
  An endpoint is subscribed in a call when its connection exists and its registration
  returned a handle. An action is loud for a call when it invokes the callback of a
  subscribed endpoint, at once or from a job it queues, at any depth. The schedule of
  a call is what its environment does before the timer fires: first the jobs queued
  during registration and the rest of the run that called \<open>confirmTransaction\<close>, then
  the later turns. A schedule is silent when it has no loud action: then no callback is
  invoked before the timer fires.
\<close>

definition subscribed :: "(error + handle) list \<Rightarrow> nat \<Rightarrow> bool" where
  "subscribed as i = (i < length as \<and> succeeded (as ! i))"

fun loud :: "(error + handle) list \<Rightarrow> action \<Rightarrow> bool" where
  "loud as (Invoke i result context) = subscribed as i"
| "loud as (Enqueue acts) = list_ex (loud as) acts"

definition silent :: "(error + handle) list \<Rightarrow> action list list \<Rightarrow> bool" where
  "silent as ts = (\<not> list_ex (list_ex (loud as)) ts)"

definition first_run :: "ConfirmEnv \<Rightarrow> action list" where
  "first_run env = map Enqueue (queued_at_registration env) @ same_run env"

definition schedule :: "ConfirmEnv \<Rightarrow> action list list" where
  "schedule env = first_run env # turns env"

text \<open>
  A call that reaches the deadline: the signature is valid, every registration returned
  a handle, and no callback is invoked before the timer fires.
\<close>

definition times_out :: "Sender \<Rightarrow> ConfirmEnv \<times> signature \<times> commitment option \<Rightarrow> bool" where
  "times_out s c = (case c of (env, sg, cm) \<Rightarrow>
     valid_signature env sg \<and> first_error (answers s sg cm) = None \<and>
     silent (answers s sg cm) (schedule env))"

definition confirm_op :: "ConfirmEnv \<times> signature \<times> commitment option \<Rightarrow> operation" where
  "confirm_op c = (case c of (env, sg, cm) \<Rightarrow> OpConfirmTransaction env sg cm)"

fun op_times_out :: "operation \<Rightarrow> Sender \<Rightarrow> bool" where
  "op_times_out (OpConfirmTransaction env sg cm) s = times_out s (env, sg, cm)"
| "op_times_out other s = False"

text \<open>
  For the proofs: the notifications that reach a callback of a subscribed endpoint, the
  state after a list of notifications, the state when the registration loop is done,
  and the invariants of the wait. A state is well formed when both arrays have one entry
  for each connection and the callbacks registered are those of the subscribed
  endpoints. The progress is tracked when its state is the state after registration
  followed by the invocations made. A queue is live when a job of the chain that leads
  to the continuation of the \<open>await\<close> is still in it. A queue is failing with \<open>e\<close> when the
  job of that chain nearest to the continuation carries the rejection \<open>e\<close>: the first
  reaction of the race while it is pending, the job that follows it once it is settled.
\<close>

definition reaching :: "(error + handle) list \<Rightarrow> notification list \<Rightarrow> notification list" where
  "reaching as t = filter (\<lambda>x. subscribed as (fst x)) t"

definition deliver :: "notification list \<Rightarrow> CallState \<Rightarrow> CallState" where
  "deliver ns st = foldl notify st ns"

definition start :: "(error + handle) list \<Rightarrow> CallState" where
  "start as = \<lparr>subscriptionIds = map recorded as, response = None, promises = map promise_of as\<rparr>"

definition call_inv :: "(error + handle) list \<Rightarrow> CallState \<Rightarrow> bool" where
  "call_inv as st =
     (length (promises st) = length as \<and> length (subscriptionIds st) = length as \<and>
      (\<forall>i. registered st i = subscribed as i))"

definition tracked :: "(error + handle) list \<Rightarrow> Progress \<Rightarrow> bool" where
  "tracked as p = (call p = deliver (invoked p) (start as) \<and> reaching as (invoked p) = invoked p)"

fun chain :: "job \<Rightarrow> bool" where
  "chain (EnvJob acts) = False"
| "chain other = True"

fun followup :: "job \<Rightarrow> bool" where
  "followup (ThenJob outcome) = True"
| "followup (Resume outcome) = True"
| "followup other = False"

fun carried :: "job \<Rightarrow> error option" where
  "carried (Reaction outcome) = outcome"
| "carried (ThenJob outcome) = outcome"
| "carried (Resume outcome) = outcome"
| "carried (EnvJob acts) = None"

fun loud_job :: "(error + handle) list \<Rightarrow> job \<Rightarrow> bool" where
  "loud_job as (EnvJob acts) = list_ex (loud as) acts"
| "loud_job as other = False"

definition live :: "bool \<Rightarrow> job list \<Rightarrow> bool" where
  "live settled q =
     ((\<not> settled \<and> (\<exists>outcome. Reaction outcome \<in> set q))
      \<or> (\<exists>outcome. ThenJob outcome \<in> set q \<or> Resume outcome \<in> set q))"

definition loop_inv :: "(error + handle) list \<Rightarrow> bool \<Rightarrow> job list \<Rightarrow> Progress \<Rightarrow> bool" where
  "loop_inv as settled q p =
     (tracked as p
      \<and> (invoked p = [] \<longrightarrow> \<not> settled \<and> (\<forall>j\<in>set q. \<not> chain j))
      \<and> (invoked p \<noteq> [] \<longrightarrow> live settled q)
      \<and> (\<forall>j\<in>set q. carried j = None))"

definition failing :: "error \<Rightarrow> bool \<Rightarrow> job list \<Rightarrow> bool" where
  "failing e settled q =
     (\<exists>pre j post. q = pre @ j # post
        \<and> (\<forall>x\<in>set post. \<not> followup x) \<and> (\<forall>x\<in>set pre. \<not> followup x)
        \<and> (if settled then j = ThenJob (Some e) \<or> j = Resume (Some e)
            else j = Reaction (Some e) \<and> (\<forall>x\<in>set pre. \<not> chain x)))"

subsection \<open>Example values\<close>

text \<open>
  An endpoint with a fixed answer to \<open>onSignature\<close> and to \<open>sendRawTransaction\<close>, a
  wallet without a local key, a decoder that accepts one 64-byte signature and one
  3-byte string, an environment with the three parts of its schedule and one with
  later turns only, and a library whose methods never throw.
\<close>

definition endpoint :: "string \<Rightarrow> error + handle \<Rightarrow> error + signature \<Rightarrow> Connection" where
  "endpoint url subscription sent =
     \<lparr>rpcEndpoint = url,
      onSignature = (\<lambda>sg cm. subscription),
      getLatestBlockhash = (\<lambda>cm. Inr ''blockhash''),
      conn_sendRawTransaction = (\<lambda>raw os. sent)\<rparr>"

definition wallet0 :: IWallet where
  "wallet0 =
     \<lparr>publicKey = ''payer'', payer = None,
      signTransaction = (\<lambda>tx. Inr (tx\<lparr>signatures := signatures tx @ [''payer'']\<rparr>)),
      signVersionedTransaction = (\<lambda>tx. Inr (tx\<lparr>v_signatures := v_signatures tx @ [''payer'']\<rparr>))\<rparr>"

definition opts0 :: ConfirmOptions where
  "opts0 = \<lparr>skipPreflight = None, commitment = Some ''confirmed'',
            preflightCommitment = Some ''processed''\<rparr>"

definition sender_of :: "Connection \<Rightarrow> Connection list \<Rightarrow> Sender" where
  "sender_of c cs = new_sender c wallet0 (Some opts0) None (Some cs)"

definition decode0 :: "signature \<Rightarrow> bytes option" where
  "decode0 sg =
     (if sg = ''sig64'' then Some (replicate 64 1)
      else if sg = ''short'' then Some [1, 2, 3]
      else None)"

definition env_with :: "action list list \<Rightarrow> action list \<Rightarrow> action list list \<Rightarrow> ConfirmEnv" where
  "env_with js rest ts =
     \<lparr>bs58_decode = decode0, date_now_start = 1000, date_now_end = 36000,
      queued_at_registration = js, same_run = rest, turns = ts\<rparr>"

definition env_of :: "action list list \<Rightarrow> ConfirmEnv" where
  "env_of ts = env_with [] [] ts"

definition ok :: SignatureResult where
  "ok = \<lparr>err = None\<rparr>"

definition lib0 :: TxLib where
  "lib0 =
     \<lparr>partialSign = (\<lambda>kp tx. Inr (tx\<lparr>signatures := signatures tx @ [signer_publicKey kp]\<rparr>)),
      serialize = (\<lambda>tx. Inr (map length (instructions tx))),
      v_sign = (\<lambda>kps tx. Inr (tx\<lparr>v_signatures := v_signatures tx @ map signer_publicKey (defined_signers kps)\<rparr>)),
      v_serialize = (\<lambda>tx. Inr [length (v_message tx)]),
      compileToV0Message = (\<lambda>pk bh ixs luts. Inr (concat ixs))\<rparr>"

definition tx0 :: Transaction where
  "tx0 = \<lparr>feePayer = Some ''alice'', recentBlockhash = Some ''old'', instructions = [''transfer''],
          signatures = [''alice'']\<rparr>"

definition vtx0 :: VersionedTransaction where
  "vtx0 = \<lparr>v_message = ''swap'', v_signatures = [''alice'']\<rparr>"

section \<open>Callbacks on the state of a call\<close>

lemma teardown_upt:
  "teardown k ids =
     concat (map (\<lambda>j. case ids ! j of
                         Some h \<Rightarrow> if h \<noteq> 0 then [RemoveSignatureListener (k + j) h] else []
                       | None \<Rightarrow> []) [0..<length ids])"
proof (induction ids arbitrary: k)
  case Nil
  then show ?case by simp
next
  case (Cons a ids)
  have upt: "[0..<length (a # ids)] = 0 # map Suc [0..<length ids]"
    by (simp add: upt_conv_Cons map_Suc_upt del: upt_Suc)
  show ?case
    unfolding upt by (cases a) (simp_all add: Cons.IH comp_def cong: option.case_cong if_cong)
qed

lemma length_resolve [simp]: "length (resolve i ps) = length ps"
  by (simp add: resolve_def)

lemma registered_inv: "call_inv as st \<Longrightarrow> registered st i = subscribed as i"
  by (simp add: call_inv_def)

lemma registered_resolve:
  "registered (st\<lparr>promises := resolve i (promises st)\<rparr>) j = registered st j"
  by (cases "promises st ! i"; cases "i = j")
     (auto simp: registered_def resolve_def nth_list_update split: promise.splits)

lemma callback_inv:
  assumes "call_inv as st" "subscribed as i"
  shows "call_inv as (callback i r c st)"
    "subscriptionIds (callback i r c st) = (subscriptionIds st)[i := None]"
    "response (callback i r c st) = Some \<lparr>rpc_context = c, rpc_value = r\<rparr>"
proof -
  have reg: "registered (callback i r c st) j = registered st j" for j
    using registered_resolve [where st = st and i = i and j = j] by (simp add: callback_def registered_def)
  show "call_inv as (callback i r c st)"
    using assms reg by (simp add: call_inv_def) (simp add: callback_def array_set_def subscribed_def)
  show "subscriptionIds (callback i r c st) = (subscriptionIds st)[i := None]"
    using assms by (simp add: callback_def array_set_def call_inv_def subscribed_def)
  show "response (callback i r c st) = Some \<lparr>rpc_context = c, rpc_value = r\<rparr>"
    by (simp add: callback_def)
qed

lemma notify_step:
  assumes "call_inv as st"
  shows "notify st x =
           (if subscribed as (fst x) then callback (fst x) (fst (snd x)) (snd (snd x)) st else st)"
  using registered_inv [OF assms] by (cases x) (simp add: notify_def)

lemma notify_inv:
  assumes "call_inv as st"
  shows "call_inv as (notify st x)"
  using assms callback_inv(1) [OF assms] by (simp add: notify_step [OF assms])

lemma deliver_inv: "call_inv as st \<Longrightarrow> call_inv as (deliver t st)"
  unfolding deliver_def by (induction t arbitrary: st) (simp_all add: notify_inv)

lemma deliver_Cons: "deliver (x # t) st = deliver t (notify st x)"
  by (simp add: deliver_def)

lemma deliver_Nil: "deliver [] st = st"
  by (simp add: deliver_def)

lemma deliver_snoc: "deliver (t @ [x]) st = notify (deliver t st) x"
  by (simp add: deliver_def)

lemma deliver_ids:
  assumes "call_inv as st" "j < length as"
  shows "subscriptionIds (deliver t st) ! j =
           (if j \<in> fst ` set (reaching as t) then None else subscriptionIds st ! j)"
  using assms(1)
proof (induction t arbitrary: st)
  case Nil
  then show ?case by (simp add: deliver_Nil reaching_def)
next
  case (Cons x t)
  note inv' = notify_inv [OF Cons.prems]
  have len: "length (subscriptionIds st) = length as" using Cons.prems by (simp add: call_inv_def)
  have step: "subscriptionIds (notify st x) ! j =
      (if subscribed as (fst x) \<and> fst x = j then None else subscriptionIds st ! j)"
    using len assms(2) callback_inv(2) [OF Cons.prems, where i = "fst x" and r = "fst (snd x)" and c = "snd (snd x)"]
    by (auto simp: notify_step [OF Cons.prems])
  show ?case
    using Cons.IH [OF inv'] step assms(2) by (auto simp: deliver_Cons reaching_def)
qed

lemma deliver_response:
  assumes "call_inv as st"
  shows "response (deliver t st) =
           (if reaching as t = [] then response st else Some (payload (last (reaching as t))))"
  using assms
proof (induction t arbitrary: st)
  case Nil
  then show ?case by (simp add: deliver_Nil reaching_def)
next
  case (Cons x t)
  note inv' = notify_inv [OF Cons.prems]
  have step: "response (notify st x) =
      (if subscribed as (fst x) then Some (payload x) else response st)"
    using callback_inv(3) [OF Cons.prems, where i = "fst x" and r = "fst (snd x)" and c = "snd (snd x)"]
    by (auto simp: notify_step [OF Cons.prems] payload_def)
  show ?case
    using Cons.IH [OF inv'] step by (auto simp: deliver_Cons reaching_def)
qed

lemma registered_start: "registered (start as) i = subscribed as i"
proof (cases "i < length as")
  case True
  then show ?thesis by (cases "as ! i") (simp_all add: registered_def start_def subscribed_def)
next
  case False
  then show ?thesis by (simp add: registered_def start_def subscribed_def)
qed

lemma start_inv: "call_inv as (start as)"
  using registered_start [of as] by (simp add: call_inv_def) (simp add: start_def)

lemma tracked_inv: "tracked as p \<Longrightarrow> call_inv as (call p)"
  using deliver_inv [OF start_inv] by (simp add: tracked_def)

lemma tracked_start: "tracked as p \<Longrightarrow> invoked p = [] \<Longrightarrow> p = \<lparr>call = start as, invoked = []\<rparr>"
  by (cases p) (simp add: tracked_def deliver_Nil)

lemma tracked_initial: "tracked as \<lparr>call = start as, invoked = []\<rparr>"
  by (simp add: tracked_def deliver_Nil reaching_def)

section \<open>The queue of promise jobs\<close>

text \<open>The progress stays tracked through every action, job and turn.\<close>

lemma live_append: "live b q \<Longrightarrow> live b (q @ q2)"
  by (auto simp: live_def)

lemma reaching_snoc:
  "reaching as xs = xs \<Longrightarrow> subscribed as (fst x) \<Longrightarrow> reaching as (xs @ [x]) = xs @ [x]"
  by (simp add: reaching_def)

lemma run_actions_Nil: "run_actions [] pq = pq"
  by (simp add: run_actions_def)

lemma run_actions_Cons: "run_actions (a # acts) pq = run_actions acts (act a pq)"
  by (simp add: run_actions_def)

lemma run_actions_append: "run_actions (xs @ ys) pq = run_actions ys (run_actions xs pq)"
  by (simp add: run_actions_def)

lemma run_actions_Enqueue: "run_actions (map Enqueue js) (p, q) = (p, q @ map EnvJob js)"
  by (induction js arbitrary: q) (simp_all add: run_actions_Nil run_actions_Cons)

lemma act_tracked:
  assumes tr: "tracked as p" and a: "act a (p, q) = (p', q')"
  shows "tracked as p'"
proof (cases a)
  case (Enqueue acts)
  then show ?thesis using a tr by simp
next
  case (Invoke i r c)
  have ci: "call_inv as (call p)" using tracked_inv [OF tr] .
  show ?thesis
  proof (cases "subscribed as i")
    case False
    then have "act a (p, q) = (p, q)" using Invoke registered_inv [OF ci, of i] by simp
    then show ?thesis using tr a by simp
  next
    case True
    have reg: "registered (call p) i" using True registered_inv [OF ci, of i] by simp
    have p': "p' = \<lparr>call = callback i r c (call p), invoked = invoked p @ [(i, r, c)]\<rparr>"
      using a Invoke reg by simp
    have "call p' = notify (call p) (i, r, c)"
      using True by (simp add: p' notify_step [OF ci])
    then have t1: "call p' = deliver (invoked p') (start as)"
      using tr by (simp add: p' tracked_def deliver_snoc)
    have t2: "reaching as (invoked p') = invoked p'"
      using tr True by (simp add: p' tracked_def reaching_snoc)
    show ?thesis using t1 t2 by (simp add: tracked_def)
  qed
qed

lemma run_actions_tracked:
  "tracked as p \<Longrightarrow> run_actions acts (p, q) = (p', q') \<Longrightarrow> tracked as p'"
proof (induction acts arbitrary: p q)
  case Nil
  then show ?case by (simp add: run_actions_Nil)
next
  case (Cons a acts)
  obtain p1 q1 where a: "act a (p, q) = (p1, q1)" by (cases "act a (p, q)") auto
  have "tracked as p1" using act_tracked [OF Cons.prems(1) a] .
  then show ?case using Cons.IH [of p1 q1] Cons.prems(2) by (simp add: run_actions_Cons a)
qed

lemma drain_tracked: "tracked as p \<Longrightarrow> tracked as (snd (snd (drain b q p)))"
proof (induction b q p rule: drain.induct)
  case (5 settled acts q p)
  obtain p1 q1 where r: "run_actions acts (p, q) = (p1, q1)"
    by (cases "run_actions acts (p, q)") auto
  have "tracked as p1" using run_actions_tracked [OF "5.prems" r] .
  then show ?case using "5.IH" [OF r [symmetric]] r by simp
qed simp_all

lemma run_turns_tracked: "tracked as p \<Longrightarrow> tracked as (snd (run_turns ts p))"
proof (induction ts arbitrary: p)
  case Nil
  then show ?case by simp
next
  case (Cons t ts)
  obtain p1 q1 where r: "run_actions t (p, []) = (p1, q1)" by (cases "run_actions t (p, [])") auto
  obtain res b' p' where d: "drain False q1 p1 = (res, b', p')"
    by (cases "drain False q1 p1") auto
  have "tracked as p1" using run_actions_tracked [OF Cons.prems r] .
  then have "tracked as p'" using drain_tracked [of as p1 False q1] d by simp
  then show ?case using Cons.IH [of p'] by (cases res) (simp_all add: r d)
qed

text \<open>
  The invariant of a call in which no registration threw is kept by every action and
  by every job.
\<close>

lemma act_inv:
  assumes inv: "loop_inv as b q p" and a: "act a (p, q) = (p', q')"
  shows "loop_inv as b q' p'"
proof (cases a)
  case (Enqueue acts)
  then have "p' = p" "q' = q @ [EnvJob acts]" using a by simp_all
  then show ?thesis using inv by (auto simp: loop_inv_def intro: live_append)
next
  case (Invoke i r c)
  have tr: "tracked as p" using inv by (simp add: loop_inv_def)
  have ci: "call_inv as (call p)" using tracked_inv [OF tr] .
  have tr': "tracked as p'" using act_tracked [OF tr a] .
  show ?thesis
  proof (cases "subscribed as i")
    case False
    then have "act a (p, q) = (p, q)" using Invoke registered_inv [OF ci, of i] by simp
    then show ?thesis using inv a by simp
  next
    case True
    have reg: "registered (call p) i" using True registered_inv [OF ci, of i] by simp
    have p': "p' = \<lparr>call = callback i r c (call p), invoked = invoked p @ [(i, r, c)]\<rparr>"
      and q': "q' = (if promises (call p) ! i = Pending then q @ [Reaction None] else q)"
      using a Invoke reg by simp_all
    have lv: "live b q'"
    proof (cases "invoked p = []")
      case True
      then have "p = \<lparr>call = start as, invoked = []\<rparr>" using tracked_start [OF tr] by simp
      then have "promises (call p) ! i = Pending"
        using \<open>subscribed as i\<close> by (cases "as ! i") (simp_all add: start_def subscribed_def)
      moreover have "\<not> b" using inv True by (simp add: loop_inv_def)
      ultimately show ?thesis by (auto simp: q' live_def)
    next
      case False
      then have "live b q" using inv by (simp add: loop_inv_def)
      then show ?thesis by (auto simp: q' intro: live_append)
    qed
    have cr: "\<forall>j\<in>set q'. carried j = None" using inv by (auto simp: q' loop_inv_def)
    show ?thesis
      using tr' lv cr by (simp add: loop_inv_def p')
  qed
qed

lemma run_actions_inv:
  "loop_inv as b q p \<Longrightarrow> run_actions acts (p, q) = (p', q') \<Longrightarrow> loop_inv as b q' p'"
proof (induction acts arbitrary: p q)
  case Nil
  then show ?case by (simp add: run_actions_Nil)
next
  case (Cons a acts)
  obtain p1 q1 where a: "act a (p, q) = (p1, q1)" by (cases "act a (p, q)") auto
  have "loop_inv as b q1 p1" using act_inv [OF Cons.prems(1) a] .
  then show ?case using Cons.IH [of q1 p1] Cons.prems(2) by (simp add: run_actions_Cons a)
qed

lemma step_Reaction_settled:
  "loop_inv as True (Reaction outcome # q) p \<Longrightarrow> loop_inv as True q p"
  by (auto simp: loop_inv_def live_def)

lemma step_Reaction:
  "loop_inv as False (Reaction outcome # q) p \<Longrightarrow> loop_inv as True (q @ [ThenJob outcome]) p"
  by (auto simp: loop_inv_def live_def)

lemma step_Then:
  "loop_inv as b (ThenJob outcome # q) p \<Longrightarrow> loop_inv as b (q @ [Resume outcome]) p"
  by (auto simp: loop_inv_def live_def)

lemma step_Env_tail: "loop_inv as b (EnvJob acts # q) p \<Longrightarrow> loop_inv as b q p"
  by (auto simp: loop_inv_def live_def)

lemma step_Env:
  "loop_inv as b (EnvJob acts # q) p \<Longrightarrow> run_actions acts (p, q) = (p', q') \<Longrightarrow>
     loop_inv as b q' p'"
  using run_actions_inv [OF step_Env_tail] by blast

text \<open>
  When the queue is empty and the call has not resumed, no callback was invoked and
  the race is not settled; when the call resumes, it resumes with \<open>null\<close> and a callback
  was invoked.
\<close>

lemma drain_inv:
  "loop_inv as b q p \<Longrightarrow> drain b q p = (r, b', p') \<Longrightarrow>
     tracked as p' \<and> (r = None \<longrightarrow> invoked p' = [] \<and> \<not> b')
     \<and> (\<forall>outcome. r = Some outcome \<longrightarrow> outcome = None \<and> invoked p' \<noteq> [])"
proof (induction b q p rule: drain.induct)
  case (1 settled p)
  then show ?case by (auto simp: loop_inv_def live_def)
next
  case (2 settled outcome q p)
  then show ?case by (auto simp: loop_inv_def)
next
  case (3 settled outcome q p)
  show ?case
  proof (cases settled)
    case True
    then show ?thesis using 3 step_Reaction_settled [of as outcome q p] by simp
  next
    case False
    then show ?thesis using 3 step_Reaction [of as outcome q p] by simp
  qed
next
  case (4 settled outcome q p)
  then show ?case using step_Then [of as settled outcome q p] by simp
next
  case (5 settled acts q p)
  obtain p1 q1 where r: "run_actions acts (p, q) = (p1, q1)"
    by (cases "run_actions acts (p, q)") auto
  have "loop_inv as settled q1 p1" using step_Env [OF "5.prems"(1) r] .
  then show ?case using "5.IH" [OF r [symmetric]] "5.prems"(2) r by simp
qed

text \<open>Jobs without a loud action leave the progress as it is.\<close>

lemma act_quiet:
  assumes "call_inv as (call p)" "\<not> loud as a"
  shows "\<exists>q2. act a (p, q) = (p, q @ q2) \<and> (\<forall>j\<in>set q2. \<not> chain j \<and> \<not> loud_job as j)"
  using assms registered_inv [OF assms(1)] by (cases a) auto

lemma run_actions_quiet:
  assumes "call_inv as (call p)" "\<not> list_ex (loud as) acts"
  shows "\<exists>q2. run_actions acts (p, q) = (p, q @ q2)
           \<and> (\<forall>j\<in>set q2. \<not> chain j \<and> \<not> loud_job as j)"
  using assms(2)
proof (induction acts arbitrary: q)
  case Nil
  then show ?case by (simp add: run_actions_Nil)
next
  case (Cons a acts)
  then have a: "\<not> loud as a" and rest: "\<not> list_ex (loud as) acts" by simp_all
  obtain q2 where q2: "act a (p, q) = (p, q @ q2)" "\<forall>j\<in>set q2. \<not> chain j \<and> \<not> loud_job as j"
    using act_quiet [OF assms(1) a, of q] by blast
  obtain q3 where q3: "run_actions acts (p, q @ q2) = (p, (q @ q2) @ q3)"
      "\<forall>j\<in>set q3. \<not> chain j \<and> \<not> loud_job as j"
    using Cons.IH [OF rest, of "q @ q2"] by blast
  have "run_actions (a # acts) (p, q) = (p, q @ (q2 @ q3))"
    by (simp add: run_actions_Cons q2(1) q3(1))
  moreover have "\<forall>j\<in>set (q2 @ q3). \<not> chain j \<and> \<not> loud_job as j" using q2(2) q3(2) by auto
  ultimately show ?case by blast
qed

lemma drain_quiet:
  "call_inv as (call p) \<Longrightarrow> \<forall>j\<in>set q. \<not> chain j \<and> \<not> loud_job as j \<Longrightarrow>
     drain b q p = (None, b, p)"
proof (induction b q p rule: drain.induct)
  case (5 settled acts q p)
  have "\<not> list_ex (loud as) acts" using "5.prems"(2) by simp
  then obtain q2 where q2: "run_actions acts (p, q) = (p, q @ q2)"
      "\<forall>j\<in>set q2. \<not> chain j \<and> \<not> loud_job as j"
    using run_actions_quiet [OF "5.prems"(1), of acts q] by blast
  have "\<forall>j\<in>set (q @ q2). \<not> chain j \<and> \<not> loud_job as j" using "5.prems"(2) q2(2) by auto
  then show ?case using "5.IH" [OF q2(1) [symmetric]] "5.prems"(1) q2(1) by simp
qed simp_all

lemma drain_calm:
  "call_inv as (call p) \<Longrightarrow> \<forall>j\<in>set q. \<not> loud_job as j \<Longrightarrow> snd (snd (drain b q p)) = p"
proof (induction b q p rule: drain.induct)
  case (5 settled acts q p)
  have "\<not> list_ex (loud as) acts" using "5.prems"(2) by simp
  then obtain q2 where q2: "run_actions acts (p, q) = (p, q @ q2)"
      "\<forall>j\<in>set q2. \<not> chain j \<and> \<not> loud_job as j"
    using run_actions_quiet [OF "5.prems"(1), of acts q] by blast
  have "\<forall>j\<in>set (q @ q2). \<not> loud_job as j" using "5.prems"(2) q2(2) by auto
  then show ?case using "5.IH" [OF q2(1) [symmetric]] "5.prems"(1) q2(1) by simp
qed simp_all

text \<open>A loud job in the queue gets a callback invoked before the queue is empty.\<close>

lemma act_grows:
  "act a (p, q) = (p', q') \<Longrightarrow>
     (\<exists>xs. invoked p' = invoked p @ xs) \<and> (\<exists>q2. q' = q @ q2 \<and> (\<forall>x\<in>set q2. \<not> followup x))"
  by (cases a) (auto split: if_splits)

lemma run_actions_grows:
  "run_actions acts (p, q) = (p', q') \<Longrightarrow>
     (\<exists>xs. invoked p' = invoked p @ xs) \<and> (\<exists>q2. q' = q @ q2 \<and> (\<forall>x\<in>set q2. \<not> followup x))"
proof (induction acts arbitrary: p q)
  case Nil
  then show ?case by (simp add: run_actions_Nil)
next
  case (Cons a acts)
  obtain p1 q1 where a: "act a (p, q) = (p1, q1)" by (cases "act a (p, q)") auto
  from act_grows [OF a] obtain xs q2 where
    1: "invoked p1 = invoked p @ xs" "q1 = q @ q2" "\<forall>x\<in>set q2. \<not> followup x" by blast
  from Cons.IH [of p1 q1] Cons.prems obtain ys q3 where
    2: "invoked p' = invoked p1 @ ys" "q' = q1 @ q3" "\<forall>x\<in>set q3. \<not> followup x"
    by (auto simp: run_actions_Cons a)
  have "q' = q @ (q2 @ q3)" "\<forall>x\<in>set (q2 @ q3). \<not> followup x" using 1 2 by auto
  then show ?case using 1 2 by auto
qed

lemma drain_mono: "invoked p \<noteq> [] \<Longrightarrow> invoked (snd (snd (drain b q p))) \<noteq> []"
proof (induction b q p rule: drain.induct)
  case (5 settled acts q p)
  obtain p1 q1 where r: "run_actions acts (p, q) = (p1, q1)"
    by (cases "run_actions acts (p, q)") auto
  have "invoked p1 \<noteq> []" using run_actions_grows [OF r] "5.prems" by auto
  then show ?case using "5.IH" [OF r [symmetric]] r by simp
qed simp_all

lemma act_loud:
  assumes "call_inv as (call p)" "loud as a" "act a (p, q) = (p', q')"
  shows "invoked p' \<noteq> [] \<or> (\<exists>j\<in>set q'. loud_job as j)"
  using assms registered_inv [OF assms(1)] by (cases a) auto

lemma run_actions_loud:
  assumes "tracked as p" "list_ex (loud as) acts \<or> (\<exists>j\<in>set q. loud_job as j)"
    "run_actions acts (p, q) = (p', q')"
  shows "invoked p' \<noteq> [] \<or> (\<exists>j\<in>set q'. loud_job as j)"
  using assms
proof (induction acts arbitrary: p q)
  case Nil
  then show ?case by (simp add: run_actions_Nil)
next
  case (Cons a acts)
  obtain p1 q1 where a: "act a (p, q) = (p1, q1)" by (cases "act a (p, q)") auto
  have tr: "tracked as p1" using act_tracked [OF Cons.prems(1) a] .
  have ci: "call_inv as (call p)" using tracked_inv [OF Cons.prems(1)] .
  have r: "run_actions acts (p1, q1) = (p', q')" using Cons.prems(3) by (simp add: run_actions_Cons a)
  from act_grows [OF a] obtain q2 where q1: "q1 = q @ q2" by blast
  show ?case
  proof (cases "invoked p1 \<noteq> []")
    case True
    then show ?thesis using run_actions_grows [OF r] by auto
  next
    case False
    have "list_ex (loud as) acts \<or> (\<exists>j\<in>set q1. loud_job as j)"
    proof (cases "loud as a")
      case True
      then show ?thesis using act_loud [OF ci True a] False by simp
    next
      case nl: False
      then show ?thesis using Cons.prems(2) q1 by auto
    qed
    then show ?thesis using Cons.IH [OF tr _ r] by simp
  qed
qed

lemma drain_loud:
  "loop_inv as b q p \<Longrightarrow> \<exists>j\<in>set q. loud_job as j \<Longrightarrow> invoked (snd (snd (drain b q p))) \<noteq> []"
proof (induction b q p rule: drain.induct)
  case (1 settled p)
  then show ?case by simp
next
  case (2 settled outcome q p)
  then show ?case by (auto simp: loop_inv_def)
next
  case (3 settled outcome q p)
  show ?case
  proof (cases settled)
    case True
    then show ?thesis using 3 step_Reaction_settled [of as outcome q p] by auto
  next
    case False
    then show ?thesis using 3 step_Reaction [of as outcome q p] by auto
  qed
next
  case (4 settled outcome q p)
  then show ?case using step_Then [of as settled outcome q p] by auto
next
  case (5 settled acts q p)
  obtain p1 q1 where r: "run_actions acts (p, q) = (p1, q1)"
    by (cases "run_actions acts (p, q)") auto
  have inv1: "loop_inv as settled q1 p1" using step_Env [OF "5.prems"(1) r] .
  have tr: "tracked as p" using "5.prems"(1) by (simp add: loop_inv_def)
  have "list_ex (loud as) acts \<or> (\<exists>j\<in>set q. loud_job as j)" using "5.prems"(2) by auto
  then have "invoked p1 \<noteq> [] \<or> (\<exists>j\<in>set q1. loud_job as j)"
    using run_actions_loud [OF tr _ r] by simp
  then show ?case
  proof
    assume "invoked p1 \<noteq> []"
    then show ?thesis using drain_mono [of p1 settled q1] r by simp
  next
    assume "\<exists>j\<in>set q1. loud_job as j"
    then show ?thesis using "5.IH" [OF r [symmetric]] inv1 r by simp
  qed
qed

lemma loop_inv_start: "loop_inv as False [] \<lparr>call = start as, invoked = []\<rparr>"
  by (simp add: loop_inv_def tracked_initial)

text \<open>
  A turn without a loud action is passed over; a turn with one resumes the call,
  whatever turns follow.
\<close>

lemma turn_quiet:
  assumes "\<not> list_ex (loud as) t"
  shows "run_turns (t # ts) \<lparr>call = start as, invoked = []\<rparr> =
           run_turns ts \<lparr>call = start as, invoked = []\<rparr>"
proof -
  let ?p0 = "\<lparr>call = start as, invoked = []\<rparr>"
  have ci: "call_inv as (call ?p0)" using start_inv by simp
  obtain q1 where q1: "run_actions t (?p0, []) = (?p0, [] @ q1)"
      "\<forall>j\<in>set q1. \<not> chain j \<and> \<not> loud_job as j"
    using run_actions_quiet [OF ci assms, of "[]"] by blast
  have "drain False q1 ?p0 = (None, False, ?p0)" using drain_quiet [OF ci q1(2)] .
  then show ?thesis using q1(1) by simp
qed

lemma turn_loud:
  assumes "list_ex (loud as) t"
  shows "\<exists>p'. tracked as p' \<and> invoked p' \<noteq> []
           \<and> (\<forall>ts. run_turns (t # ts) \<lparr>call = start as, invoked = []\<rparr> = (None, p'))"
proof -
  let ?p0 = "\<lparr>call = start as, invoked = []\<rparr>"
  obtain p1 q1 where r: "run_actions t (?p0, []) = (p1, q1)"
    by (cases "run_actions t (?p0, [])") auto
  have inv1: "loop_inv as False q1 p1"
    using run_actions_inv [OF loop_inv_start r] .
  obtain res b' p' where d: "drain False q1 p1 = (res, b', p')"
    by (cases "drain False q1 p1") auto
  have "invoked p1 \<noteq> [] \<or> (\<exists>j\<in>set q1. loud_job as j)"
    using run_actions_loud [OF tracked_initial _ r] assms by simp
  then have ne: "invoked p' \<noteq> []"
    using drain_mono [of p1 False q1] drain_loud [OF inv1] d by auto
  from drain_inv [OF inv1 d] ne have res: "res = Some None" and tr: "tracked as p'"
    by (cases res; auto)+
  have "run_turns (t # ts) ?p0 = (None, p')" for ts by (simp add: r d res)
  then show ?thesis using tr ne by blast
qed

lemma run_turns_silent:
  assumes "silent as ts"
  shows "run_turns ts \<lparr>call = start as, invoked = []\<rparr> = (None, \<lparr>call = start as, invoked = []\<rparr>)"
  using assms
proof (induction ts)
  case Nil
  then show ?case by simp
next
  case (Cons t ts)
  then show ?case using turn_quiet [of as t ts] by (simp add: silent_def)
qed

lemma run_turns_loud:
  assumes "\<not> silent as ts"
  shows "\<exists>p'. tracked as p' \<and> invoked p' \<noteq> []
           \<and> (\<forall>extra. run_turns (ts @ extra) \<lparr>call = start as, invoked = []\<rparr> = (None, p'))"
  using assms
proof (induction ts)
  case Nil
  then show ?case by (simp add: silent_def)
next
  case (Cons t ts)
  show ?case
  proof (cases "list_ex (loud as) t")
    case True
    then show ?thesis using turn_loud [OF True] by auto
  next
    case False
    then have "\<not> silent as ts" using Cons.prems by (simp add: silent_def)
    then show ?thesis using Cons.IH turn_quiet [OF False] by simp
  qed
qed

text \<open>
  A failing queue stays failing, and emptying it resumes the call with the rejection.
\<close>

lemma failing_append:
  assumes "failing e b q" "\<forall>x\<in>set q2. \<not> followup x"
  shows "failing e b (q @ q2)"
proof -
  obtain pre j post where d: "q = pre @ j # post"
      "\<forall>x\<in>set post. \<not> followup x" "\<forall>x\<in>set pre. \<not> followup x"
      "if b then j = ThenJob (Some e) \<or> j = Resume (Some e)
       else j = Reaction (Some e) \<and> (\<forall>x\<in>set pre. \<not> chain x)"
    using assms(1) unfolding failing_def by blast
  have "q @ q2 = pre @ j # (post @ q2)" using d(1) by simp
  moreover have "\<forall>x\<in>set (post @ q2). \<not> followup x" using d(2) assms(2) by auto
  ultimately show ?thesis using d(3,4) unfolding failing_def by blast
qed

lemma failing_tl:
  assumes "failing e b (x # q)" "\<not> followup x" "\<not> b \<longrightarrow> \<not> chain x"
  shows "failing e b q"
proof -
  obtain pre j post where d: "x # q = pre @ j # post"
      "\<forall>x\<in>set post. \<not> followup x" "\<forall>x\<in>set pre. \<not> followup x"
      "if b then j = ThenJob (Some e) \<or> j = Resume (Some e)
       else j = Reaction (Some e) \<and> (\<forall>x\<in>set pre. \<not> chain x)"
    using assms(1) unfolding failing_def by blast
  have "pre \<noteq> []"
  proof
    assume "pre = []"
    then have "x = j" using d(1) by simp
    then show False using d(4) assms(2,3) by (cases b) auto
  qed
  then obtain pre' where pre: "pre = x # pre'" using d(1) by (cases pre) auto
  then have "q = pre' @ j # post" using d(1) by simp
  moreover have "\<forall>x\<in>set pre'. \<not> followup x" using d(3) pre by simp
  moreover have "if b then j = ThenJob (Some e) \<or> j = Resume (Some e)
       else j = Reaction (Some e) \<and> (\<forall>x\<in>set pre'. \<not> chain x)"
    using d(4) pre by (cases b) auto
  ultimately show ?thesis using d(2) unfolding failing_def by blast
qed

lemma failing_head:
  assumes "failing e b (x # q)" "followup x \<or> (\<not> b \<and> chain x)"
  shows "x = (if b then x else Reaction (Some e)) \<and> carried x = Some e
         \<and> (\<forall>y\<in>set q. \<not> followup y) \<and> (followup x \<longrightarrow> b)"
proof -
  obtain pre j post where d: "x # q = pre @ j # post"
      "\<forall>x\<in>set post. \<not> followup x" "\<forall>x\<in>set pre. \<not> followup x"
      "if b then j = ThenJob (Some e) \<or> j = Resume (Some e)
       else j = Reaction (Some e) \<and> (\<forall>x\<in>set pre. \<not> chain x)"
    using assms(1) unfolding failing_def by blast
  have "pre = []"
  proof (rule ccontr)
    assume "pre \<noteq> []"
    then obtain pre' where "pre = x # pre'" using d(1) by (cases pre) auto
    then have "\<not> followup x" "\<not> b \<longrightarrow> \<not> chain x" using d(3,4) by (auto split: if_splits)
    then show False using assms(2) by auto
  qed
  then have "x = j" "q = post" using d(1) by simp_all
  then show ?thesis using d(2,4) by (cases b) auto
qed

lemma failing_settle:
  "\<forall>y\<in>set q. \<not> followup y \<Longrightarrow> j = ThenJob (Some e) \<or> j = Resume (Some e) \<Longrightarrow>
     failing e True (q @ [j])"
  unfolding failing_def by (intro exI [of _ q] exI [of _ j] exI [of _ "[]"]) simp

lemma run_actions_failing:
  assumes "failing e b q" "run_actions acts (p, q) = (p', q')"
  shows "failing e b q'"
  using run_actions_grows [OF assms(2)] failing_append [OF assms(1)] by blast

lemma drain_failing: "failing e b q \<Longrightarrow> fst (drain b q p) = Some (Some e)"
proof (induction b q p rule: drain.induct)
  case (1 settled p)
  then show ?case by (simp add: failing_def)
next
  case (2 settled outcome q p)
  then show ?case using failing_head [of e settled "Resume outcome" q] by simp
next
  case (3 settled outcome q p)
  show ?case
  proof (cases settled)
    case True
    then have "failing e True q" using 3(3) failing_tl [of e True "Reaction outcome" q] by simp
    then show ?thesis using True 3 by simp
  next
    case False
    then have h: "outcome = Some e" "\<forall>y\<in>set q. \<not> followup y"
      using 3(3) failing_head [of e False "Reaction outcome" q] by simp_all
    have "failing e True (q @ [ThenJob (Some e)])" using failing_settle [OF h(2)] by simp
    then show ?thesis using False 3 h(1) by simp
  qed
next
  case (4 settled outcome q p)
  have h: "outcome = Some e" "\<forall>y\<in>set q. \<not> followup y" "settled"
    using 4(2) failing_head [of e settled "ThenJob outcome" q] by simp_all
  have "failing e True (q @ [Resume (Some e)])" using failing_settle [OF h(2)] by simp
  then show ?case using 4 h by simp
next
  case (5 settled acts q p)
  obtain p1 q1 where r: "run_actions acts (p, q) = (p1, q1)"
    by (cases "run_actions acts (p, q)") auto
  have "failing e settled q" using "5.prems" failing_tl [of e settled "EnvJob acts" q] by simp
  then have "failing e settled q1" using run_actions_failing [OF _ r] by simp
  then show ?case using "5.IH" [OF r [symmetric]] r by simp
qed

text \<open>
  A registration that threw rejects the race with the first error thrown, whatever the
  endpoints do in the run that called \<open>confirmTransaction\<close>, and no later turn is awaited;
  without a thrown registration the wait is that of the schedule.
\<close>

lemma settled_reactions_only: "\<forall>j\<in>set (settled_reactions ps). \<exists>outcome. j = Reaction outcome"
  by (induction ps rule: settled_reactions.induct) auto

lemma settled_reactions_error:
  "first_error as = Some e \<Longrightarrow>
     \<exists>rs. settled_reactions (map promise_of as) = Reaction (Some e) # rs
        \<and> (\<forall>j\<in>set rs. \<not> followup j)"
proof (induction as rule: first_error.induct)
  case (2 e' xs)
  have "\<forall>j\<in>set (settled_reactions ps). \<not> followup j" for ps
    using settled_reactions_only [of ps] by auto
  then show ?case using 2 by simp
qed simp_all

lemma settled_reactions_none:
  "first_error as = None \<Longrightarrow> settled_reactions (map promise_of as) = []"
  by (induction as rule: first_error.induct) simp_all

lemma failing_start:
  assumes "first_error as = Some e"
  shows "failing e False (map EnvJob js @ settled_reactions (promises (start as)))"
proof -
  obtain rs where rs: "settled_reactions (map promise_of as) = Reaction (Some e) # rs"
      "\<forall>j\<in>set rs. \<not> followup j"
    using settled_reactions_error [OF assms] by blast
  show ?thesis
    unfolding failing_def
    by (intro exI [of _ "map EnvJob js"] exI [of _ "Reaction (Some e)"] exI [of _ rs])
       (auto simp: start_def rs)
qed

lemma promiseTimeout_tracked: "tracked as (snd (promiseTimeout js rest ts (start as)))"
proof -
  let ?p0 = "\<lparr>call = start as, invoked = []\<rparr>"
  let ?q0 = "map EnvJob js @ settled_reactions (promises (start as))"
  obtain p1 q1 where r: "run_actions rest (?p0, ?q0) = (p1, q1)"
    by (cases "run_actions rest (?p0, ?q0)") auto
  obtain res b' p' where d: "drain False q1 p1 = (res, b', p')"
    by (cases "drain False q1 p1") auto
  have "tracked as p1" using run_actions_tracked [OF tracked_initial r] .
  then have "tracked as p'" using drain_tracked [of as p1 False q1] d by simp
  then show ?thesis
    using run_turns_tracked [of as p' ts] by (cases res) (simp_all add: promiseTimeout_def r d)
qed

lemma promiseTimeout_rejected:
  assumes "first_error as = Some e"
  shows "\<exists>p'. \<forall>ts. promiseTimeout js rest ts (start as) = (Some e, p')"
proof -
  let ?p0 = "\<lparr>call = start as, invoked = []\<rparr>"
  let ?q0 = "map EnvJob js @ settled_reactions (promises (start as))"
  obtain p1 q1 where r: "run_actions rest (?p0, ?q0) = (p1, q1)"
    by (cases "run_actions rest (?p0, ?q0)") auto
  obtain res b' p' where d: "drain False q1 p1 = (res, b', p')"
    by (cases "drain False q1 p1") auto
  have "failing e False q1" using run_actions_failing [OF failing_start [OF assms] r] .
  then have "res = Some (Some e)" using drain_failing [of e False q1 p1] d by simp
  then have "promiseTimeout js rest ts (start as) = (Some e, p')" for ts
    by (simp add: promiseTimeout_def r d)
  then show ?thesis by blast
qed

lemma promiseTimeout_raced:
  assumes "first_error as = None"
  shows "promiseTimeout js rest ts (start as) =
           run_turns ((map Enqueue js @ rest) # ts) \<lparr>call = start as, invoked = []\<rparr>"
proof -
  have "settled_reactions (promises (start as)) = []"
    using settled_reactions_none [OF assms] by (simp add: start_def)
  then show ?thesis
    by (simp add: promiseTimeout_def run_actions_append run_actions_Enqueue)
qed

lemma first_run_calm:
  assumes "first_error as = Some e" "\<not> list_ex (loud as) (map Enqueue js @ rest)"
  shows "invoked (snd (promiseTimeout js rest ts (start as))) = []"
proof -
  let ?p0 = "\<lparr>call = start as, invoked = []\<rparr>"
  let ?q0 = "map EnvJob js @ settled_reactions (promises (start as))"
  have ci: "call_inv as (call ?p0)" using start_inv by simp
  have rest: "\<not> list_ex (loud as) rest" using assms(2) by (auto simp: list_ex_iff)
  have js: "\<not> list_ex (loud as) j" if "j \<in> set js" for j
  proof -
    have "Enqueue j \<in> set (map Enqueue js @ rest)" using that by simp
    then have "\<not> loud as (Enqueue j)" using assms(2) unfolding list_ex_iff by blast
    then show ?thesis by simp
  qed
  obtain q2 where q2: "run_actions rest (?p0, ?q0) = (?p0, ?q0 @ q2)"
      "\<forall>j\<in>set q2. \<not> chain j \<and> \<not> loud_job as j"
    using run_actions_quiet [OF ci rest, of ?q0] by blast
  have "\<forall>j\<in>set (settled_reactions (promises (start as))). \<not> loud_job as j"
    using settled_reactions_only [of "promises (start as)"] by auto
  then have calm: "\<forall>j\<in>set (?q0 @ q2). \<not> loud_job as j" using js q2(2) by auto
  obtain res b' p' where d: "drain False (?q0 @ q2) ?p0 = (res, b', p')"
    by (cases "drain False (?q0 @ q2) ?p0") auto
  have p': "p' = ?p0" using drain_calm [OF ci calm, of False] d by simp
  have res: "res = Some (Some e)"
    using drain_failing [of e False "?q0 @ q2" ?p0]
      run_actions_failing [OF failing_start [OF assms(1)] q2(1)] d by simp
  have "promiseTimeout js rest ts (start as) = (Some e, p')"
    by (simp only: promiseTimeout_def q2(1) d res prod.case option.case)
  then show ?thesis using p' by simp
qed

section \<open>The three ways through a call with a valid signature\<close>

lemma subscribe_answer:
  "subscribe c sg cm = (recorded (onSignature c sg cm), promise_of (onSignature c sg cm))"
  by (cases "onSignature c sg cm") (simp_all add: subscribe_def)

lemma first_error_None: "(first_error as = None) = (\<forall>a\<in>set as. succeeded a)"
  by (induction as rule: first_error.induct) simp_all

lemma confirm_unfold:
  assumes "valid_signature env sg"
  shows "confirmTransaction env sg cm s =
    (let raced = promiseTimeout (queued_at_registration env) (same_run env) (turns env)
                   (start (answers s sg cm));
         trace = registrations s sg cm @ map notified (invoked (snd raced))
                   @ teardown 0 (subscriptionIds (call (snd raced)))
     in case fst raced of
          Some e \<Rightarrow> (Inl e, s, trace)
        | None \<Rightarrow>
            (case response (call (snd raced)) of
               None \<Rightarrow> (Inl (NotConfirmed (date_now_end env - date_now_start env) sg),
                          s\<lparr>timeoutCount := timeoutCount s + 1\<rparr>, trace)
             | Some r \<Rightarrow> (Inr r, s, trace)))"
proof -
  obtain b where b: "bs58_decode env sg = Some b" "length b = 64"
    using assms by (auto simp: valid_signature_def split: option.splits)
  show ?thesis
    by (simp add: confirmTransaction_def b Let_def answers_def all_connections_def start_def
        registrations_def subscribe_answer comp_def cong: sum.case_cong option.case_cong)
qed

lemma valid_signature_turns: "valid_signature (env\<lparr>turns := ts\<rparr>) sg = valid_signature env sg"
  by (simp add: valid_signature_def)

text \<open>
  A registration threw: the call fails with its error, after the callbacks invoked
  before it resumed, whatever the later turns.
\<close>

lemma confirm_rejected:
  assumes "valid_signature env sg" "first_error (answers s sg cm) = Some e"
  shows "\<exists>log. reaching (answers s sg cm) log = log
           \<and> (\<forall>ts. confirmTransaction (env\<lparr>turns := ts\<rparr>) sg cm s =
                (Inl e, s,
                 registrations s sg cm @ map notified log
                 @ teardown 0 (subscriptionIds (deliver log (start (answers s sg cm))))))"
proof -
  let ?as = "answers s sg cm"
  obtain p' where p': "\<forall>ts. promiseTimeout (queued_at_registration env) (same_run env) ts
      (start ?as) = (Some e, p')"
    using promiseTimeout_rejected [OF assms(2)] by blast
  have "tracked ?as p'"
    using promiseTimeout_tracked [of ?as "queued_at_registration env" "same_run env" "[]"] p'
    by simp
  then have call: "call p' = deliver (invoked p') (start ?as)"
    and re: "reaching ?as (invoked p') = invoked p'"
    by (simp_all add: tracked_def)
  have "confirmTransaction (env\<lparr>turns := ts\<rparr>) sg cm s =
      (Inl e, s, registrations s sg cm @ map notified (invoked p')
       @ teardown 0 (subscriptionIds (deliver (invoked p') (start ?as))))" for ts
    using assms(1) p'
    by (simp add: confirm_unfold [of "env\<lparr>turns := ts\<rparr>"] valid_signature_turns Let_def
        call [symmetric])
  then show ?thesis using re by blast
qed

text \<open>No callback is invoked before the timer fires: the call reaches its deadline.\<close>

lemma confirm_silent:
  assumes "valid_signature env sg" "first_error (answers s sg cm) = None"
    "silent (answers s sg cm) (schedule env)"
  shows "confirmTransaction env sg cm s =
           (Inl (NotConfirmed (date_now_end env - date_now_start env) sg),
            s\<lparr>timeoutCount := timeoutCount s + 1\<rparr>,
            registrations s sg cm @ teardown 0 (map recorded (answers s sg cm)))"
proof -
  let ?as = "answers s sg cm"
  have "promiseTimeout (queued_at_registration env) (same_run env) (turns env) (start ?as) =
      (None, \<lparr>call = start ?as, invoked = []\<rparr>)"
    using promiseTimeout_raced [OF assms(2)] run_turns_silent [OF assms(3)]
    by (simp add: schedule_def first_run_def)
  then show ?thesis by (simp add: confirm_unfold [OF assms(1)] Let_def) (simp add: start_def)
qed

text \<open>
  A callback is invoked: the call returns the payload of the last one invoked before it
  resumed, and turns added after the schedule change nothing.
\<close>

lemma confirm_loud:
  assumes "valid_signature env sg" "first_error (answers s sg cm) = None"
    "\<not> silent (answers s sg cm) (schedule env)"
  shows "\<exists>log. log \<noteq> [] \<and> reaching (answers s sg cm) log = log
           \<and> (\<forall>extra. confirmTransaction (env\<lparr>turns := turns env @ extra\<rparr>) sg cm s =
                (Inr (payload (last log)), s,
                 registrations s sg cm @ map notified log
                 @ teardown 0 (subscriptionIds (deliver log (start (answers s sg cm))))))"
proof -
  let ?as = "answers s sg cm"
  obtain p' where p': "tracked ?as p'" "invoked p' \<noteq> []"
      "\<forall>extra. run_turns (schedule env @ extra) \<lparr>call = start ?as, invoked = []\<rparr> = (None, p')"
    using run_turns_loud [OF assms(3)] by blast
  have call: "call p' = deliver (invoked p') (start ?as)"
    and re: "reaching ?as (invoked p') = invoked p'"
    using p'(1) by (simp_all add: tracked_def)
  have resp: "response (call p') = Some (payload (last (invoked p')))"
    using deliver_response [OF start_inv, where t = "invoked p'" and as = ?as] p'(2)
    by (simp add: call re)
  have "confirmTransaction (env\<lparr>turns := turns env @ extra\<rparr>) sg cm s =
      (Inr (payload (last (invoked p'))), s,
       registrations s sg cm @ map notified (invoked p')
       @ teardown 0 (subscriptionIds (deliver (invoked p') (start ?as))))" for extra
  proof -
    have "promiseTimeout (queued_at_registration env) (same_run env) (turns env @ extra)
        (start ?as) = (None, p')"
      using promiseTimeout_raced [OF assms(2)] p'(3) [rule_format, of extra]
      by (simp add: schedule_def first_run_def)
    then show ?thesis
      using resp assms(1)
      by (simp add: confirm_unfold [of "env\<lparr>turns := turns env @ extra\<rparr>"]
          valid_signature_turns Let_def call [symmetric])
  qed
  then show ?thesis using p'(2) re by blast
qed

lemma callbacks_of_append: "callbacks_of (xs @ ys) = callbacks_of xs @ callbacks_of ys"
  by (induction xs rule: callbacks_of.induct) simp_all

lemma callbacks_of_notified: "callbacks_of (map notified log) = log"
  by (induction log) auto

lemma callbacks_of_registrations: "callbacks_of (registrations s sg cm) = []"
proof -
  have "callbacks_of (map (\<lambda>i. OnSignature i sg c) xs) = []" for c xs
    by (induction xs) simp_all
  then show ?thesis by (simp add: registrations_def)
qed

lemma callbacks_of_teardown: "callbacks_of (teardown k ids) = []"
  by (induction ids arbitrary: k) (simp_all split: option.splits)

lemma callbacks_of_expected: "callbacks_of (expected_teardown as F) = []"
proof -
  have "callbacks_of (concat (map (\<lambda>i. case as ! i of
            Inr h \<Rightarrow> if i \<in> F then [] else [RemoveSignatureListener i h]
          | Inl e \<Rightarrow> []) xs)) = []" for xs
    by (induction xs) (auto simp: callbacks_of_append split: sum.splits)
  then show ?thesis by (simp add: expected_teardown_def)
qed

lemma callbacks_of_trace:
  "callbacks_of (registrations s sg cm @ map notified log @ expected_teardown as F) = log"
  by (simp add: callbacks_of_append callbacks_of_registrations callbacks_of_notified
      callbacks_of_expected)

lemma filter_registrations: "filter is_removal (registrations s sg cm) = []"
  by (simp add: registrations_def filter_empty_conv)

lemma filter_notified: "filter is_removal (map notified log) = []"
  by (induction log) auto

lemma removal_expected: "filter is_removal (expected_teardown as F) = expected_teardown as F"
  by (auto simp: expected_teardown_def filter_id_conv split: sum.splits if_splits)

lemma length_expected:
  "length (expected_teardown as F) =
     length (filter (\<lambda>i. succeeded (as ! i) \<and> i \<notin> F) [0..<length as])"
proof -
  have "length (concat (map (\<lambda>i. case as ! i of
            Inr h \<Rightarrow> if i \<in> F then [] else [RemoveSignatureListener i h]
          | Inl e \<Rightarrow> []) xs)) = length (filter (\<lambda>i. succeeded (as ! i) \<and> i \<notin> F) xs)" for xs
    by (induction xs) (auto split: sum.splits)
  then show ?thesis by (simp add: expected_teardown_def)
qed

lemma count_expected:
  assumes "F \<subseteq> {i. i < length as \<and> succeeded (as ! i)}"
  shows "length (expected_teardown as F) + card F = length (filter succeeded as)"
proof -
  let ?B = "{i. i < length as \<and> succeeded (as ! i)}"
  have fin: "finite ?B" by simp
  have "length (expected_teardown as F) = card {i. i < length as \<and> succeeded (as ! i) \<and> i \<notin> F}"
    by (simp add: length_expected length_filter_conv_card cong: conj_cong)
  also have "{i. i < length as \<and> succeeded (as ! i) \<and> i \<notin> F} = ?B - F" by auto
  also have "card (?B - F) = card ?B - card F"
    using assms fin by (simp add: card_Diff_subset finite_subset)
  finally have "length (expected_teardown as F) + card F = card ?B"
    using card_mono [OF fin assms] by simp
  then show ?thesis by (simp add: length_filter_conv_card)
qed

lemma teardown_delivered:
  assumes "Inr 0 \<notin> set as" and t: "reaching as t = t"
  shows "teardown 0 (subscriptionIds (deliver t (start as))) = expected_teardown as (fst ` set t)"
proof -
  have len: "length (subscriptionIds (deliver t (start as))) = length as"
    using deliver_inv [OF start_inv, where t = t and as = as] by (simp add: call_inv_def)
  have "(case subscriptionIds (deliver t (start as)) ! j of
           Some h \<Rightarrow> if h \<noteq> 0 then [RemoveSignatureListener (0 + j) h] else []
         | None \<Rightarrow> []) =
        (case as ! j of Inr h \<Rightarrow> if j \<in> fst ` set t then [] else [RemoveSignatureListener j h]
         | Inl e \<Rightarrow> [])" if j: "j < length as" for j
  proof (cases "as ! j")
    case (Inl e)
    then show ?thesis using j deliver_ids [OF start_inv j, where t = t] by (simp add: t start_def)
  next
    case (Inr h)
    then have "Inr h \<in> set as" using j nth_mem by metis
    then have "h \<noteq> 0" using assms(1) by (cases "h = 0") simp_all
    then show ?thesis using j Inr deliver_ids [OF start_inv j, where t = t] by (simp add: t start_def)
  qed
  then show ?thesis
    unfolding teardown_upt expected_teardown_def len
    by (intro arg_cong [where f = concat] map_cong) simp_all
qed

lemma teardown_recorded:
  assumes "Inr 0 \<notin> set as"
  shows "teardown 0 (map recorded as) = expected_teardown as {}"
  using teardown_delivered [OF assms, of "[]"] by (simp add: reaching_def deliver_Nil start_def)

text \<open>
  With handles other than 0, what happens in a call with a valid signature: the
  registrations, the callbacks invoked, and the removal of each handle whose callback
  was not invoked.
\<close>

lemma confirm_trace:
  assumes "valid_signature env sg" and "Inr 0 \<notin> set (answers s sg cm)"
  shows "\<exists>log. reaching (answers s sg cm) log = log
           \<and> snd (snd (confirmTransaction env sg cm s)) =
               registrations s sg cm @ map notified log
               @ expected_teardown (answers s sg cm) (fst ` set log)"
proof -
  let ?as = "answers s sg cm"
  let ?raced = "promiseTimeout (queued_at_registration env) (same_run env) (turns env) (start ?as)"
  have "tracked ?as (snd ?raced)" using promiseTimeout_tracked .
  then have call: "call (snd ?raced) = deliver (invoked (snd ?raced)) (start ?as)"
    and re: "reaching ?as (invoked (snd ?raced)) = invoked (snd ?raced)"
    by (simp_all add: tracked_def)
  have "snd (snd (confirmTransaction env sg cm s)) =
      registrations s sg cm @ map notified (invoked (snd ?raced))
      @ teardown 0 (subscriptionIds (call (snd ?raced)))"
    by (simp add: confirm_unfold [OF assms(1)] Let_def split: option.splits)
  then show ?thesis
    using re teardown_delivered [OF assms(2) re] by (intro exI [of _ "invoked (snd ?raced)"]) (simp add: call [symmetric])
qed

lemmas eval_confirm =
  confirmTransaction_def env_of_def env_with_def decode0_def sender_of_def new_sender_def endpoint_def
  opts0_def js_or_def subscribe_def promiseTimeout_def run_actions_def registered_def
  callback_def array_set_def resolve_def Let_def upt_rec ok_def

section \<open>Teardown of the subscriptions\<close>

text \<open>
  C1, as amended. For every valid signature and every outcome of \<open>confirmTransaction\<close>
  (a callback invoked, the timer fired, a registration threw), in a call where no
  registration returned the handle 0: what happens in the call is the \<open>onSignature\<close>
  call on every connection, then the callbacks invoked before the call resumes, then,
  from its own connection and exactly once, the removal of the handle of every endpoint
  whose registration returned one and whose callback was not invoked before the call
  resumed, and nothing else. The handle of an endpoint whose callback was invoked is not
  removed by the call. So the number of removals plus the number of endpoints whose
  callback was invoked equals the number of subscriptions registered.
\<close>

theorem confirm_teardown:
  assumes "valid_signature env sg" and "Inr 0 \<notin> set (answers s sg cm)"
  shows "snd (snd (confirmTransaction env sg cm s)) =
           registrations s sg cm
           @ map notified (callbacks_of (snd (snd (confirmTransaction env sg cm s))))
           @ expected_teardown (answers s sg cm)
               (fst ` set (callbacks_of (snd (snd (confirmTransaction env sg cm s)))))
         \<and> length (filter is_removal (snd (snd (confirmTransaction env sg cm s)))) +
             card (fst ` set (callbacks_of (snd (snd (confirmTransaction env sg cm s))))) =
           length (filter succeeded (answers s sg cm))"
proof -
  let ?as = "answers s sg cm"
  let ?tr = "snd (snd (confirmTransaction env sg cm s))"
  obtain log where re: "reaching ?as log = log"
    and tr: "?tr = registrations s sg cm @ map notified log @ expected_teardown ?as (fst ` set log)"
    using confirm_trace [OF assms] by blast
  have cb: "callbacks_of ?tr = log" unfolding tr by (rule callbacks_of_trace)
  have "subscribed ?as (fst x)" if "x \<in> set log" for x
  proof -
    have "x \<in> set (reaching ?as log)" using that re by simp
    then show ?thesis by (simp add: reaching_def)
  qed
  then have sub: "fst ` set log \<subseteq> {i. i < length ?as \<and> succeeded (?as ! i)}"
    by (auto simp: subscribed_def)
  have "length (filter is_removal ?tr) = length (expected_teardown ?as (fst ` set log))"
    unfolding tr by (simp add: filter_registrations filter_notified removal_expected)
  then have "length (filter is_removal ?tr) + card (fst ` set log) = length (filter succeeded ?as)"
    using count_expected [OF sub] by simp
  then show ?thesis unfolding cb using tr by simp
qed

text \<open>
  Three endpoints register handles 5, 7 and 9; the third is notified in the second
  turn: the handles 5 and 7 are removed, 9 is not.
\<close>

theorem confirm_teardown_witness:
  "valid_signature (env_of [[], [Invoke 2 ok \<lparr>slot = 9\<rparr>], [Invoke 0 ok \<lparr>slot = 10\<rparr>]]) ''sig64''
   \<and> Inr 0 \<notin> set (answers (sender_of (endpoint ''a'' (Inr 5) (Inr ''s''))
          [endpoint ''b'' (Inr 7) (Inr ''s''), endpoint ''c'' (Inr 9) (Inr ''s'')]) ''sig64'' None)
   \<and> snd (snd (confirmTransaction
        (env_of [[], [Invoke 2 ok \<lparr>slot = 9\<rparr>], [Invoke 0 ok \<lparr>slot = 10\<rparr>]]) ''sig64'' None
        (sender_of (endpoint ''a'' (Inr 5) (Inr ''s''))
          [endpoint ''b'' (Inr 7) (Inr ''s''), endpoint ''c'' (Inr 9) (Inr ''s'')]))) =
      [OnSignature 0 ''sig64'' (Some ''confirmed''), OnSignature 1 ''sig64'' (Some ''confirmed''),
       OnSignature 2 ''sig64'' (Some ''confirmed''), CallbackInvoked 2 ok \<lparr>slot = 9\<rparr>,
       RemoveSignatureListener 0 5, RemoveSignatureListener 1 7]
   \<and> length (filter is_removal (snd (snd (confirmTransaction
        (env_of [[], [Invoke 2 ok \<lparr>slot = 9\<rparr>], [Invoke 0 ok \<lparr>slot = 10\<rparr>]]) ''sig64'' None
        (sender_of (endpoint ''a'' (Inr 5) (Inr ''s''))
          [endpoint ''b'' (Inr 7) (Inr ''s''), endpoint ''c'' (Inr 9) (Inr ''s'')]))))) + 1 = 3"
proof -
  let ?env = "env_of [[], [Invoke 2 ok \<lparr>slot = 9\<rparr>], [Invoke 0 ok \<lparr>slot = 10\<rparr>]]"
  let ?s = "sender_of (endpoint ''a'' (Inr 5) (Inr ''s''))
          [endpoint ''b'' (Inr 7) (Inr ''s''), endpoint ''c'' (Inr 9) (Inr ''s'')]"
  let ?tr = "snd (snd (confirmTransaction ?env ''sig64'' None ?s))"
  have v: "valid_signature ?env ''sig64''"
    by (simp add: valid_signature_def env_of_def env_with_def decode0_def)
  have as: "answers ?s ''sig64'' None = [Inr 5, Inr 7, Inr 9]"
    by (simp add: answers_def all_connections_def sender_of_def new_sender_def endpoint_def)
  have nz: "Inr 0 \<notin> set (answers ?s ''sig64'' None)" by (simp add: as)
  have reg: "registrations ?s ''sig64'' None =
      [OnSignature 0 ''sig64'' (Some ''confirmed''), OnSignature 1 ''sig64'' (Some ''confirmed''),
       OnSignature 2 ''sig64'' (Some ''confirmed'')]"
    by (simp add: registrations_def all_connections_def sender_of_def new_sender_def js_or_def
        opts0_def upt_rec)
  have cb: "callbacks_of ?tr = [(2, ok, \<lparr>slot = 9\<rparr>)]"
    by (simp add: eval_confirm)
  have ex: "expected_teardown [Inr 5, Inr 7, Inr 9] (fst ` set [(2, ok, \<lparr>slot = 9\<rparr>)]) =
      [RemoveSignatureListener 0 5, RemoveSignatureListener 1 7]"
    by (simp add: expected_teardown_def upt_rec)
  note t = confirm_teardown [OF v nz]
  have "?tr = registrations ?s ''sig64'' None @ map notified (callbacks_of ?tr)
      @ expected_teardown (answers ?s ''sig64'' None) (fst ` set (callbacks_of ?tr))"
    using t by (rule conjunct1)
  also have "\<dots> = [OnSignature 0 ''sig64'' (Some ''confirmed''),
      OnSignature 1 ''sig64'' (Some ''confirmed''), OnSignature 2 ''sig64'' (Some ''confirmed''),
      CallbackInvoked 2 ok \<lparr>slot = 9\<rparr>,
      RemoveSignatureListener 0 5, RemoveSignatureListener 1 7]"
    unfolding cb as reg ex by simp
  finally have tr: "?tr = [OnSignature 0 ''sig64'' (Some ''confirmed''),
      OnSignature 1 ''sig64'' (Some ''confirmed''), OnSignature 2 ''sig64'' (Some ''confirmed''),
      CallbackInvoked 2 ok \<lparr>slot = 9\<rparr>,
      RemoveSignatureListener 0 5, RemoveSignatureListener 1 7]" .
  have "length (filter is_removal ?tr) + card (fst ` set (callbacks_of ?tr)) =
      length (filter succeeded (answers ?s ''sig64'' None))"
    using t by (rule conjunct2)
  then have cnt: "length (filter is_removal ?tr) + 1 = 3"
    unfolding cb as by simp
  show ?thesis using v nz tr cnt by simp
qed

text \<open>
  C1 as stated does not hold. Two endpoints register handles 5 and 7, the second is
  notified and the call returns its payload: two subscriptions were registered, one
  removal is made, and handle 7 is never removed from its connection.
\<close>

theorem confirm_teardown_counterexample:
  "answers (sender_of (endpoint ''a'' (Inr 5) (Inr ''s'')) [endpoint ''b'' (Inr 7) (Inr ''s'')])
     ''sig64'' None = [Inr 5, Inr 7]
   \<and> confirmTransaction (env_of [[Invoke 1 ok \<lparr>slot = 42\<rparr>]]) ''sig64'' None
       (sender_of (endpoint ''a'' (Inr 5) (Inr ''s'')) [endpoint ''b'' (Inr 7) (Inr ''s'')]) =
     (Inr \<lparr>rpc_context = \<lparr>slot = 42\<rparr>, rpc_value = ok\<rparr>,
      sender_of (endpoint ''a'' (Inr 5) (Inr ''s'')) [endpoint ''b'' (Inr 7) (Inr ''s'')],
      [OnSignature 0 ''sig64'' (Some ''confirmed''), OnSignature 1 ''sig64'' (Some ''confirmed''),
       CallbackInvoked 1 ok \<lparr>slot = 42\<rparr>, RemoveSignatureListener 0 5])"
  by (simp add: eval_confirm answers_def all_connections_def)

text \<open>
  The test \<open>if (subscriptionId)\<close> of the \<open>finally\<close> block also skips a handle that is the
  number 0: here the primary endpoint returns 0, the call reaches the deadline, and
  only the handle of the second endpoint is removed.
\<close>

lemma confirm_zero_handle_kept:
  "confirmTransaction (env_of []) ''sig64'' None
     (sender_of (endpoint ''a'' (Inr 0) (Inr ''s'')) [endpoint ''b'' (Inr 7) (Inr ''s'')]) =
   (Inl (NotConfirmed 35000 ''sig64''),
    (sender_of (endpoint ''a'' (Inr 0) (Inr ''s'')) [endpoint ''b'' (Inr 7) (Inr ''s'')])
      \<lparr>timeoutCount := 1\<rparr>,
    [OnSignature 0 ''sig64'' (Some ''confirmed''), OnSignature 1 ''sig64'' (Some ''confirmed''),
     RemoveSignatureListener 1 7])"
  by (simp add: eval_confirm)

section \<open>A registration that throws\<close>

text \<open>
  C2, as amended. For every valid signature, if \<open>onSignature\<close> throws on an endpoint:
  \<open>onSignature\<close> has still been called on every connection, in order; the call then
  fails with the error of the first endpoint, in the order of the connections, that
  threw, without waiting for any later turn of the event loop, and the sender, its
  counter included, is unchanged. An endpoint that threw has no callback invoked. A
  callback of another endpoint is invoked before the call fails only when it is invoked
  in the run that called \<open>confirmTransaction\<close>, or from a promise job queued in that run
  or during registration; its payload is not returned. In a call where no registration
  returned the handle 0, what follows the registrations is the callbacks invoked and
  then exactly the removal of the handle of every endpoint that returned one and whose
  callback was not invoked, once each, in the order of the connections, and no removal
  for an endpoint that threw.
\<close>

theorem confirm_registration_failure:
  assumes "valid_signature env sg" and "first_error (answers s sg cm) = Some e"
  shows "fst (confirmTransaction env sg cm s) = Inl e
         \<and> fst (snd (confirmTransaction env sg cm s)) = s
         \<and> confirmTransaction (env\<lparr>turns := ts\<rparr>) sg cm s = confirmTransaction env sg cm s
         \<and> take (length (all_connections s)) (snd (snd (confirmTransaction env sg cm s))) =
             registrations s sg cm
         \<and> (\<forall>x\<in>set (callbacks_of (snd (snd (confirmTransaction env sg cm s)))).
              subscribed (answers s sg cm) (fst x))
         \<and> (\<not> list_ex (loud (answers s sg cm)) (first_run env) \<longrightarrow>
              callbacks_of (snd (snd (confirmTransaction env sg cm s))) = [])
         \<and> (Inr 0 \<notin> set (answers s sg cm) \<longrightarrow>
              snd (snd (confirmTransaction env sg cm s)) =
                registrations s sg cm
                @ map notified (callbacks_of (snd (snd (confirmTransaction env sg cm s))))
                @ expected_teardown (answers s sg cm)
                    (fst ` set (callbacks_of (snd (snd (confirmTransaction env sg cm s))))))"
proof -
  let ?as = "answers s sg cm"
  let ?R = "confirmTransaction env sg cm s"
  obtain log where re: "reaching ?as log = log"
    and c: "\<forall>ts. confirmTransaction (env\<lparr>turns := ts\<rparr>) sg cm s =
              (Inl e, s, registrations s sg cm @ map notified log
                 @ teardown 0 (subscriptionIds (deliver log (start ?as))))"
    using confirm_rejected [OF assms] by blast
  have here: "?R = (Inl e, s, registrations s sg cm @ map notified log
      @ teardown 0 (subscriptionIds (deliver log (start ?as))))"
    using c [rule_format, of "turns env"] by simp
  have same: "confirmTransaction (env\<lparr>turns := ts\<rparr>) sg cm s = ?R"
    using c [rule_format, of ts] here by simp
  have len: "length (registrations s sg cm) = length (all_connections s)"
    by (simp add: registrations_def)
  have cb: "callbacks_of (snd (snd ?R)) = log"
    by (simp add: here callbacks_of_append callbacks_of_registrations callbacks_of_notified
        callbacks_of_teardown)
  have sub: "\<forall>x\<in>set log. subscribed ?as (fst x)"
  proof
    fix x assume "x \<in> set log"
    then have "x \<in> set (reaching ?as log)" using re by simp
    then show "subscribed ?as (fst x)" by (simp add: reaching_def)
  qed
  have calm: "log = []" if "\<not> list_ex (loud ?as) (first_run env)"
  proof -
    have "invoked (snd (promiseTimeout (queued_at_registration env) (same_run env) (turns env)
        (start ?as))) = []"
      using first_run_calm [OF assms(2)] that by (simp add: first_run_def)
    then have "callbacks_of (snd (snd ?R)) = []"
      by (simp add: confirm_unfold [OF assms(1)] Let_def callbacks_of_append
          callbacks_of_registrations callbacks_of_teardown split: option.splits)
    then show ?thesis using cb by simp
  qed
  have exact: "snd (snd ?R) = registrations s sg cm @ map notified log
      @ expected_teardown ?as (fst ` set log)" if "Inr 0 \<notin> set ?as"
    using teardown_delivered [OF that re] by (simp add: here)
  show ?thesis
    unfolding cb using same sub calm exact by (simp add: here len)
qed

text \<open>
  Of three endpoints the second throws. The callback of the first is invoked in the run
  that called \<open>confirmTransaction\<close>; the third would be notified in a later turn. The call
  fails with the error thrown, after the three registrations, the invocation, and the
  removal of handle 9.
\<close>

theorem confirm_registration_failure_witness:
  "valid_signature (env_with [] [Invoke 0 ok \<lparr>slot = 3\<rparr>] [[Invoke 2 ok \<lparr>slot = 4\<rparr>]]) ''sig64''
   \<and> first_error (answers (sender_of (endpoint ''a'' (Inr 5) (Inr ''s''))
        [endpoint ''b'' (Inl (Thrown ''refused'')) (Inr ''s''), endpoint ''c'' (Inr 9) (Inr ''s'')])
        ''sig64'' (Some ''finalized'')) = Some (Thrown ''refused'')
   \<and> Inr 0 \<notin> set (answers (sender_of (endpoint ''a'' (Inr 5) (Inr ''s''))
        [endpoint ''b'' (Inl (Thrown ''refused'')) (Inr ''s''), endpoint ''c'' (Inr 9) (Inr ''s'')])
        ''sig64'' (Some ''finalized''))
   \<and> fst (confirmTransaction (env_with [] [Invoke 0 ok \<lparr>slot = 3\<rparr>] [[Invoke 2 ok \<lparr>slot = 4\<rparr>]])
        ''sig64'' (Some ''finalized'')
        (sender_of (endpoint ''a'' (Inr 5) (Inr ''s''))
           [endpoint ''b'' (Inl (Thrown ''refused'')) (Inr ''s''),
            endpoint ''c'' (Inr 9) (Inr ''s'')])) = Inl (Thrown ''refused'')
   \<and> snd (snd (confirmTransaction
        (env_with [] [Invoke 0 ok \<lparr>slot = 3\<rparr>] [[Invoke 2 ok \<lparr>slot = 4\<rparr>]])
        ''sig64'' (Some ''finalized'')
        (sender_of (endpoint ''a'' (Inr 5) (Inr ''s''))
           [endpoint ''b'' (Inl (Thrown ''refused'')) (Inr ''s''),
            endpoint ''c'' (Inr 9) (Inr ''s'')]))) =
      [OnSignature 0 ''sig64'' (Some ''finalized''), OnSignature 1 ''sig64'' (Some ''finalized''),
       OnSignature 2 ''sig64'' (Some ''finalized''), CallbackInvoked 0 ok \<lparr>slot = 3\<rparr>,
       RemoveSignatureListener 2 9]"
proof -
  let ?env = "env_with [] [Invoke 0 ok \<lparr>slot = 3\<rparr>] [[Invoke 2 ok \<lparr>slot = 4\<rparr>]]"
  let ?s = "sender_of (endpoint ''a'' (Inr 5) (Inr ''s''))
           [endpoint ''b'' (Inl (Thrown ''refused'')) (Inr ''s''),
            endpoint ''c'' (Inr 9) (Inr ''s'')]"
  let ?tr = "snd (snd (confirmTransaction ?env ''sig64'' (Some ''finalized'') ?s))"
  have v: "valid_signature ?env ''sig64''"
    by (simp add: valid_signature_def env_with_def decode0_def)
  have as: "answers ?s ''sig64'' (Some ''finalized'') = [Inr 5, Inl (Thrown ''refused''), Inr 9]"
    by (simp add: answers_def all_connections_def sender_of_def new_sender_def endpoint_def)
  have fe: "first_error (answers ?s ''sig64'' (Some ''finalized'')) = Some (Thrown ''refused'')"
    by (simp add: as)
  have nz: "Inr 0 \<notin> set (answers ?s ''sig64'' (Some ''finalized''))" by (simp add: as)
  have reg: "registrations ?s ''sig64'' (Some ''finalized'') =
      [OnSignature 0 ''sig64'' (Some ''finalized''), OnSignature 1 ''sig64'' (Some ''finalized''),
       OnSignature 2 ''sig64'' (Some ''finalized'')]"
    by (simp add: registrations_def all_connections_def sender_of_def new_sender_def js_or_def
        upt_rec)
  have cb: "callbacks_of ?tr = [(0, ok, \<lparr>slot = 3\<rparr>)]"
    by (simp add: eval_confirm)
  have ex: "expected_teardown [Inr 5, Inl (Thrown ''refused''), Inr 9]
      (fst ` set [(0, ok, \<lparr>slot = 3\<rparr>)]) = [RemoveSignatureListener 2 9]"
    by (simp add: expected_teardown_def upt_rec)
  note t = confirm_registration_failure [OF v fe]
  have r: "fst (confirmTransaction ?env ''sig64'' (Some ''finalized'') ?s) = Inl (Thrown ''refused'')"
    using t by blast
  have "?tr = registrations ?s ''sig64'' (Some ''finalized'') @ map notified (callbacks_of ?tr)
      @ expected_teardown (answers ?s ''sig64'' (Some ''finalized''))
          (fst ` set (callbacks_of ?tr))"
    using t nz by blast
  also have "\<dots> = [OnSignature 0 ''sig64'' (Some ''finalized''),
      OnSignature 1 ''sig64'' (Some ''finalized''), OnSignature 2 ''sig64'' (Some ''finalized''),
      CallbackInvoked 0 ok \<lparr>slot = 3\<rparr>, RemoveSignatureListener 2 9]"
    unfolding cb as reg ex by simp
  finally show ?thesis using v fe nz r by simp
qed

text \<open>
  C2 as stated does not hold. The second endpoint throws at registration and the
  first would be notified with a result in the next turn: the call fails with the
  error thrown, which is neither that result nor the error of a call that reached its
  deadline, and the handle of the first is removed.
\<close>

theorem confirm_registration_failure_counterexample:
  "confirmTransaction (env_of [[Invoke 0 ok \<lparr>slot = 42\<rparr>]]) ''sig64'' None
     (sender_of (endpoint ''a'' (Inr 5) (Inr ''s''))
        [endpoint ''b'' (Inl (Thrown ''socket closed'')) (Inr ''s'')]) =
   (Inl (Thrown ''socket closed''),
    sender_of (endpoint ''a'' (Inr 5) (Inr ''s''))
      [endpoint ''b'' (Inl (Thrown ''socket closed'')) (Inr ''s'')],
    [OnSignature 0 ''sig64'' (Some ''confirmed''), OnSignature 1 ''sig64'' (Some ''confirmed''),
     RemoveSignatureListener 0 5])"
  by (simp add: eval_confirm)

section \<open>Which callback decides the result\<close>

text \<open>
  C3, as amended. In a call with a valid signature in which every registration
  returned a handle and a callback is invoked before the timer fires: every callback
  invocation stores its context and outcome in the variable \<open>response\<close>, whatever the
  variable held (there is no first-writer guard); the call returns the payload of the
  last callback invoked before it resumes after its \<open>await\<close>, whatever the position of
  that endpoint in registration order, and leaves the sender unchanged; and turns of
  the event loop that come after the schedule change nothing of the result.
\<close>

theorem confirm_returns_last_invoked:
  assumes "valid_signature env sg" and "first_error (answers s sg cm) = None"
    and "\<not> silent (answers s sg cm) (schedule env)"
  shows "callbacks_of (snd (snd (confirmTransaction env sg cm s))) \<noteq> []
         \<and> fst (confirmTransaction env sg cm s) =
             Inr (payload (last (callbacks_of (snd (snd (confirmTransaction env sg cm s))))))
         \<and> fst (snd (confirmTransaction env sg cm s)) = s
         \<and> confirmTransaction (env\<lparr>turns := turns env @ later\<rparr>) sg cm s =
             confirmTransaction env sg cm s
         \<and> response (callback i r c st) = Some \<lparr>rpc_context = c, rpc_value = r\<rparr>"
proof -
  let ?as = "answers s sg cm"
  obtain log where ne: "log \<noteq> []"
    and c: "\<forall>extra. confirmTransaction (env\<lparr>turns := turns env @ extra\<rparr>) sg cm s =
                (Inr (payload (last log)), s,
                 registrations s sg cm @ map notified log
                 @ teardown 0 (subscriptionIds (deliver log (start ?as))))"
    using confirm_loud [OF assms] by blast
  have here: "confirmTransaction env sg cm s =
      (Inr (payload (last log)), s,
       registrations s sg cm @ map notified log
       @ teardown 0 (subscriptionIds (deliver log (start ?as))))"
    using c [rule_format, of "[]"] by simp
  have cb: "callbacks_of (snd (snd (confirmTransaction env sg cm s))) = log"
    by (simp add: here callbacks_of_append callbacks_of_registrations callbacks_of_notified
        callbacks_of_teardown)
  have later: "confirmTransaction (env\<lparr>turns := turns env @ later\<rparr>) sg cm s =
      confirmTransaction env sg cm s"
    using c [rule_format, of later] here by simp
  show ?thesis
    unfolding cb using ne later by (simp add: here callback_def)
qed

text \<open>
  The first turn queues a job that invokes a callback no endpoint registered; in the
  second the second endpoint is notified of a failed transaction in slot 42, and that
  is returned.
\<close>

theorem confirm_returns_last_invoked_witness:
  "valid_signature (env_of [[Enqueue [Invoke 5 ok \<lparr>slot = 1\<rparr>]],
        [Invoke 1 \<lparr>err = Some ''InsufficientFunds''\<rparr> \<lparr>slot = 42\<rparr>]]) ''sig64''
   \<and> first_error (answers (sender_of (endpoint ''a'' (Inr 5) (Inr ''s''))
        [endpoint ''b'' (Inr 7) (Inr ''s'')]) ''sig64'' None) = None
   \<and> \<not> silent (answers (sender_of (endpoint ''a'' (Inr 5) (Inr ''s''))
        [endpoint ''b'' (Inr 7) (Inr ''s'')]) ''sig64'' None)
        (schedule (env_of [[Enqueue [Invoke 5 ok \<lparr>slot = 1\<rparr>]],
           [Invoke 1 \<lparr>err = Some ''InsufficientFunds''\<rparr> \<lparr>slot = 42\<rparr>]]))
   \<and> fst (confirmTransaction
        (env_of [[Enqueue [Invoke 5 ok \<lparr>slot = 1\<rparr>]],
           [Invoke 1 \<lparr>err = Some ''InsufficientFunds''\<rparr> \<lparr>slot = 42\<rparr>]]) ''sig64'' None
        (sender_of (endpoint ''a'' (Inr 5) (Inr ''s'')) [endpoint ''b'' (Inr 7) (Inr ''s'')])) =
      Inr \<lparr>rpc_context = \<lparr>slot = 42\<rparr>, rpc_value = \<lparr>err = Some ''InsufficientFunds''\<rparr>\<rparr>"
proof -
  let ?ts = "[[Enqueue [Invoke 5 ok \<lparr>slot = 1\<rparr>]],
           [Invoke 1 \<lparr>err = Some ''InsufficientFunds''\<rparr> \<lparr>slot = 42\<rparr>]]"
  let ?s = "sender_of (endpoint ''a'' (Inr 5) (Inr ''s'')) [endpoint ''b'' (Inr 7) (Inr ''s'')]"
  let ?R = "confirmTransaction (env_of ?ts) ''sig64'' None ?s"
  have v: "valid_signature (env_of ?ts) ''sig64''"
    by (simp add: valid_signature_def env_of_def env_with_def decode0_def)
  have as: "answers ?s ''sig64'' None = [Inr 5, Inr 7]"
    by (simp add: answers_def all_connections_def sender_of_def new_sender_def endpoint_def)
  have fe: "first_error (answers ?s ''sig64'' None) = None" by (simp add: as)
  have ns: "\<not> silent (answers ?s ''sig64'' None) (schedule (env_of ?ts))"
    by (simp add: as env_of_def env_with_def schedule_def first_run_def silent_def subscribed_def)
  have cb: "callbacks_of (snd (snd ?R)) = [(1, \<lparr>err = Some ''InsufficientFunds''\<rparr>, \<lparr>slot = 42\<rparr>)]"
    by (simp add: eval_confirm)
  have "fst ?R = Inr (payload (last (callbacks_of (snd (snd ?R)))))"
    using confirm_returns_last_invoked [OF v fe ns] by blast
  also have "\<dots> = Inr \<lparr>rpc_context = \<lparr>slot = 42\<rparr>,
      rpc_value = \<lparr>err = Some ''InsufficientFunds''\<rparr>\<rparr>"
    unfolding cb by (simp add: payload_def)
  finally show ?thesis using v fe ns by simp
qed

text \<open>
  C3 as stated does not hold. The second endpoint's callback is invoked with slot 42,
  and in the same run a promise job is queued that invokes the first endpoint's
  callback with slot 41. That job runs before the continuation of the \<open>await\<close>: the
  second invocation overwrites the response and clears its entry, and the call returns
  slot 41, not the payload of the first endpoint to fire, and removes no handle.
\<close>

theorem confirm_first_writer_counterexample:
  "confirmTransaction
     (env_of [[Invoke 1 ok \<lparr>slot = 42\<rparr>, Enqueue [Invoke 0 ok \<lparr>slot = 41\<rparr>]]]) ''sig64'' None
     (sender_of (endpoint ''a'' (Inr 5) (Inr ''s'')) [endpoint ''b'' (Inr 7) (Inr ''s'')]) =
   (Inr \<lparr>rpc_context = \<lparr>slot = 41\<rparr>, rpc_value = ok\<rparr>,
    sender_of (endpoint ''a'' (Inr 5) (Inr ''s'')) [endpoint ''b'' (Inr 7) (Inr ''s'')],
    [OnSignature 0 ''sig64'' (Some ''confirmed''), OnSignature 1 ''sig64'' (Some ''confirmed''),
     CallbackInvoked 1 ok \<lparr>slot = 42\<rparr>, CallbackInvoked 0 ok \<lparr>slot = 41\<rparr>])
   \<and> callback 0 ok \<lparr>slot = 41\<rparr> (callback 1 ok \<lparr>slot = 42\<rparr>
        \<lparr>subscriptionIds = [Some 5, Some 7], response = None, promises = [Pending, Pending]\<rparr>) =
     \<lparr>subscriptionIds = [None, None],
      response = Some \<lparr>rpc_context = \<lparr>slot = 41\<rparr>, rpc_value = ok\<rparr>,
      promises = [Fulfilled, Fulfilled]\<rparr>"
  by (simp add: eval_confirm)

text \<open>
  The continuation of the \<open>await\<close> is the third promise job after the first callback:
  a callback invoked from a job that an endpoint queued two levels deep still runs
  before it, one queued three levels deep does not.
\<close>

lemma resume_after_three_jobs:
  "fst (confirmTransaction
     (env_of [[Invoke 1 ok \<lparr>slot = 42\<rparr>, Enqueue [Enqueue [Invoke 0 ok \<lparr>slot = 41\<rparr>]]]])
     ''sig64'' None
     (sender_of (endpoint ''a'' (Inr 5) (Inr ''s'')) [endpoint ''b'' (Inr 7) (Inr ''s'')])) =
   Inr \<lparr>rpc_context = \<lparr>slot = 41\<rparr>, rpc_value = ok\<rparr>
   \<and> confirmTransaction
     (env_of [[Invoke 1 ok \<lparr>slot = 42\<rparr>, Enqueue [Enqueue [Enqueue [Invoke 0 ok \<lparr>slot = 41\<rparr>]]]]])
     ''sig64'' None
     (sender_of (endpoint ''a'' (Inr 5) (Inr ''s'')) [endpoint ''b'' (Inr 7) (Inr ''s'')]) =
   (Inr \<lparr>rpc_context = \<lparr>slot = 42\<rparr>, rpc_value = ok\<rparr>,
    sender_of (endpoint ''a'' (Inr 5) (Inr ''s'')) [endpoint ''b'' (Inr 7) (Inr ''s'')],
    [OnSignature 0 ''sig64'' (Some ''confirmed''), OnSignature 1 ''sig64'' (Some ''confirmed''),
     CallbackInvoked 1 ok \<lparr>slot = 42\<rparr>, RemoveSignatureListener 0 5])"
  by (simp add: eval_confirm)

section \<open>Signatures that are refused\<close>

text \<open>
  C4. For every input string that \<open>bs58.decode\<close> refuses or decodes to other than 64
  bytes, \<open>confirmTransaction\<close> fails at once with the error of the failed check, the
  sender is unchanged, and no call is made to any connection: no subscription is opened.
\<close>

theorem confirm_invalid_signature:
  assumes "\<not> valid_signature env sg"
  shows "confirmTransaction env sg cm s =
           (Inl (case bs58_decode env sg of
                   None \<Rightarrow> SignatureNotBase58 sg
                 | Some b \<Rightarrow> SignatureInvalidLength), s, [])"
  using assms by (auto simp: confirmTransaction_def valid_signature_def split: option.splits)

theorem confirm_invalid_signature_witness:
  "\<not> valid_signature (env_of [[Invoke 0 ok \<lparr>slot = 1\<rparr>]]) ''short''
   \<and> confirmTransaction (env_of [[Invoke 0 ok \<lparr>slot = 1\<rparr>]]) ''short'' None
        (sender_of (endpoint ''a'' (Inr 5) (Inr ''s'')) []) =
      (Inl SignatureInvalidLength, sender_of (endpoint ''a'' (Inr 5) (Inr ''s'')) [], [])
   \<and> \<not> valid_signature (env_of [[Invoke 0 ok \<lparr>slot = 1\<rparr>]]) ''0OIl''
   \<and> confirmTransaction (env_of [[Invoke 0 ok \<lparr>slot = 1\<rparr>]]) ''0OIl'' None
        (sender_of (endpoint ''a'' (Inr 5) (Inr ''s'')) []) =
      (Inl (SignatureNotBase58 ''0OIl''), sender_of (endpoint ''a'' (Inr 5) (Inr ''s'')) [], [])"
proof -
  let ?env = "env_of [[Invoke 0 ok \<lparr>slot = 1\<rparr>]]"
  have a: "\<not> valid_signature ?env ''short''"
    by (simp add: valid_signature_def env_of_def env_with_def decode0_def)
  have b: "\<not> valid_signature ?env ''0OIl''"
    by (simp add: valid_signature_def env_of_def env_with_def decode0_def)
  show ?thesis
    using a b confirm_invalid_signature [OF a] confirm_invalid_signature [OF b]
    by (simp add: env_of_def env_with_def decode0_def)
qed

section \<open>The timeout counter\<close>

lemma confirm_times_out:
  assumes "times_out s (env, sg, cm)"
  shows "fst (confirmTransaction env sg cm s) =
           Inl (NotConfirmed (date_now_end env - date_now_start env) sg)"
    and "fst (snd (confirmTransaction env sg cm s)) = s\<lparr>timeoutCount := timeoutCount s + 1\<rparr>"
proof -
  have v: "valid_signature env sg" and ne: "first_error (answers s sg cm) = None"
    and t: "silent (answers s sg cm) (schedule env)"
    using assms by (simp_all add: times_out_def)
  show "fst (confirmTransaction env sg cm s) =
           Inl (NotConfirmed (date_now_end env - date_now_start env) sg)"
    by (simp add: confirm_silent [OF v ne t])
  show "fst (snd (confirmTransaction env sg cm s)) = s\<lparr>timeoutCount := timeoutCount s + 1\<rparr>"
    by (simp add: confirm_silent [OF v ne t])
qed

lemma confirm_result_keeps_sender:
  "fst (confirmTransaction env sg cm s) = Inr r \<Longrightarrow> fst (snd (confirmTransaction env sg cm s)) = s"
  by (auto simp: confirmTransaction_def Let_def split: option.splits sum.splits if_splits)

lemma times_out_counter: "times_out (s\<lparr>timeoutCount := k\<rparr>) c = times_out s c"
  by (simp add: times_out_def answers_def all_connections_def)

lemma run_timed_out:
  "list_all (times_out s) calls \<Longrightarrow>
     run (map confirm_op calls) s = s\<lparr>timeoutCount := timeoutCount s + length calls\<rparr>"
proof (induction calls arbitrary: s)
  case Nil
  then show ?case by simp
next
  case (Cons c calls)
  obtain env sg cm where c: "c = (env, sg, cm)" by (cases c) auto
  let ?s' = "s\<lparr>timeoutCount := timeoutCount s + 1\<rparr>"
  have step: "exec (confirm_op c) s = ?s'"
    using Cons.prems confirm_times_out(2) [of s env sg cm] by (simp add: c confirm_op_def)
  have "list_all (times_out ?s') calls"
    using Cons.prems by (simp add: times_out_counter list_all_iff)
  then show ?case using Cons.IH [of ?s'] by (simp add: step)
qed

lemma confirm_counter:
  "timeoutCount (fst (snd (confirmTransaction env sg cm s))) =
     timeoutCount s + (if times_out s (env, sg, cm) then 1 else 0)"
proof (cases "valid_signature env sg")
  case False
  then show ?thesis
    by (auto simp: confirmTransaction_def valid_signature_def times_out_def split: option.splits)
next
  case v: True
  show ?thesis
  proof (cases "first_error (answers s sg cm)")
    case (Some e)
    obtain log where "\<forall>ts. confirmTransaction (env\<lparr>turns := ts\<rparr>) sg cm s =
        (Inl e, s, registrations s sg cm @ map notified log
           @ teardown 0 (subscriptionIds (deliver log (start (answers s sg cm)))))"
      using confirm_rejected [OF v Some] by blast
    from this [rule_format, of "turns env"] show ?thesis using Some by (simp add: times_out_def)
  next
    case None
    show ?thesis
    proof (cases "silent (answers s sg cm) (schedule env)")
      case True
      then show ?thesis using v None by (simp add: confirm_silent [OF v None True] times_out_def)
    next
      case False
      obtain log where "\<forall>extra. confirmTransaction (env\<lparr>turns := turns env @ extra\<rparr>) sg cm s =
          (Inr (payload (last log)), s,
           registrations s sg cm @ map notified log
           @ teardown 0 (subscriptionIds (deliver log (start (answers s sg cm)))))"
        using confirm_loud [OF v None False] by blast
      from this [rule_format, of "[]"] show ?thesis using False by (simp add: times_out_def)
    qed
  qed
qed

text \<open>
  C5, as amended. A call of \<open>confirmTransaction\<close> with a valid signature in which every
  registration returned a handle and no callback is invoked before the configured
  timeout elapses fails with the error of an unconfirmed transaction, which carries the
  elapsed time and the signature, and the counter of the sender increases by exactly 1;
  \<open>N\<close> such calls in a row increase it by exactly \<open>N\<close>; a call that returns a result
  leaves it unchanged.
\<close>

theorem confirm_timeout_counter:
  "(times_out s (env, sg, cm) \<longrightarrow>
       fst (confirmTransaction env sg cm s) =
         Inl (NotConfirmed (date_now_end env - date_now_start env) sg)
     \<and> getTimeoutCount (fst (snd (confirmTransaction env sg cm s))) = getTimeoutCount s + 1)
   \<and> (list_all (times_out s) calls \<longrightarrow>
       getTimeoutCount (run (map confirm_op calls) s) = getTimeoutCount s + length calls)
   \<and> (fst (confirmTransaction env sg cm s) = Inr r \<longrightarrow>
       getTimeoutCount (fst (snd (confirmTransaction env sg cm s))) = getTimeoutCount s)"
  using confirm_times_out [of s env sg cm] run_timed_out [of s calls]
    confirm_result_keeps_sender [of env sg cm s r]
  by (simp add: getTimeoutCount_def)

theorem confirm_timeout_counter_witness:
  "times_out (sender_of (endpoint ''a'' (Inr 5) (Inr ''s'')) []) (env_of [], ''sig64'', None)
   \<and> fst (confirmTransaction (env_of []) ''sig64'' None
        (sender_of (endpoint ''a'' (Inr 5) (Inr ''s'')) [])) = Inl (NotConfirmed 35000 ''sig64'')
   \<and> getTimeoutCount (fst (snd (confirmTransaction (env_of []) ''sig64'' None
        (sender_of (endpoint ''a'' (Inr 5) (Inr ''s'')) [])))) = 1
   \<and> list_all (times_out (sender_of (endpoint ''a'' (Inr 5) (Inr ''s'')) []))
        [(env_of [], ''sig64'', None), (env_of [[]], ''sig64'', Some ''finalized''),
         (env_of [[Invoke 3 ok \<lparr>slot = 1\<rparr>, Enqueue []]], ''sig64'', None)]
   \<and> getTimeoutCount (run (map confirm_op
        [(env_of [], ''sig64'', None), (env_of [[]], ''sig64'', Some ''finalized''),
         (env_of [[Invoke 3 ok \<lparr>slot = 1\<rparr>, Enqueue []]], ''sig64'', None)])
        (sender_of (endpoint ''a'' (Inr 5) (Inr ''s'')) [])) = 3
   \<and> fst (confirmTransaction (env_of [[Invoke 0 ok \<lparr>slot = 8\<rparr>]]) ''sig64'' None
        (sender_of (endpoint ''a'' (Inr 5) (Inr ''s'')) [])) =
      Inr \<lparr>rpc_context = \<lparr>slot = 8\<rparr>, rpc_value = ok\<rparr>
   \<and> getTimeoutCount (fst (snd (confirmTransaction (env_of [[Invoke 0 ok \<lparr>slot = 8\<rparr>]]) ''sig64'' None
        (sender_of (endpoint ''a'' (Inr 5) (Inr ''s'')) [])))) = 0"
proof -
  let ?s = "sender_of (endpoint ''a'' (Inr 5) (Inr ''s'')) []"
  let ?calls = "[(env_of [], ''sig64'', None), (env_of [[]], ''sig64'', Some ''finalized''),
         (env_of [[Invoke 3 ok \<lparr>slot = 1\<rparr>, Enqueue []]], ''sig64'', None)]"
  have as: "answers ?s ''sig64'' cm = [Inr 5]" for cm
    by (simp add: answers_def all_connections_def sender_of_def new_sender_def endpoint_def)
  have t: "times_out ?s (env_of [], ''sig64'', None)"
    by (simp add: times_out_def as valid_signature_def env_of_def env_with_def decode0_def
        schedule_def first_run_def silent_def subscribed_def)
  have ts: "list_all (times_out ?s) ?calls"
    by (simp add: times_out_def as valid_signature_def env_of_def env_with_def decode0_def
        schedule_def first_run_def silent_def subscribed_def)
  have c0: "getTimeoutCount ?s = 0"
    by (simp add: getTimeoutCount_def sender_of_def new_sender_def)
  have d: "date_now_end (env_of []) - date_now_start (env_of []) = 35000"
    by (simp add: env_of_def env_with_def)
  have r: "fst (confirmTransaction (env_of [[Invoke 0 ok \<lparr>slot = 8\<rparr>]]) ''sig64'' None ?s) =
      Inr \<lparr>rpc_context = \<lparr>slot = 8\<rparr>, rpc_value = ok\<rparr>"
    by (simp add: eval_confirm)
  have u: "getTimeoutCount (fst (snd (confirmTransaction
      (env_of [[Invoke 0 ok \<lparr>slot = 8\<rparr>]]) ''sig64'' None ?s))) = getTimeoutCount ?s"
    using r confirm_timeout_counter [of ?s "env_of [[Invoke 0 ok \<lparr>slot = 8\<rparr>]]" "''sig64''" None "[]"
        "\<lparr>rpc_context = \<lparr>slot = 8\<rparr>, rpc_value = ok\<rparr>"]
    by blast
  have w: "fst (confirmTransaction (env_of []) ''sig64'' None ?s) = Inl (NotConfirmed 35000 ''sig64'')
      \<and> getTimeoutCount (fst (snd (confirmTransaction (env_of []) ''sig64'' None ?s))) = 1
      \<and> getTimeoutCount (run (map confirm_op ?calls) ?s) = 3"
    using t ts confirm_timeout_counter [of ?s "env_of []" "''sig64''" None ?calls]
    by (simp add: c0 d)
  show ?thesis
    using t ts r u w by (simp add: c0)
qed

text \<open>
  C5 as stated does not hold. The only endpoint throws at registration and no callback
  is ever invoked: the call fails with the error thrown, not with the error of an
  unconfirmed transaction, and the counter stays at 0.
\<close>

theorem confirm_timeout_counterexample:
  "confirmTransaction (env_of []) ''sig64'' None
     (sender_of (endpoint ''a'' (Inl (Thrown ''socket closed'')) (Inr ''s'')) []) =
   (Inl (Thrown ''socket closed''),
    sender_of (endpoint ''a'' (Inl (Thrown ''socket closed'')) (Inr ''s'')) [],
    [OnSignature 0 ''sig64'' (Some ''confirmed'')])
   \<and> getTimeoutCount (fst (snd (confirmTransaction (env_of []) ''sig64'' None
        (sender_of (endpoint ''a'' (Inl (Thrown ''socket closed'')) (Inr ''s'')) [])))) = 0"
  by (simp add: eval_confirm getTimeoutCount_def)

section \<open>Preparing a transaction\<close>

lemma prepareTx_fetch_fails:
  assumes "getLatestBlockhash (connection s) (preflightCommitment os) = Inl e"
  shows "prepareTx lib tx additionalSigners os s =
           (Inl e, tx\<lparr>feePayer := Some (publicKey (wallet s))\<rparr>,
            [GetLatestBlockhash (preflightCommitment os)])"
  using assms by (simp add: prepareTx_def)

text \<open>
  C6. If fetching the latest blockhash fails inside \<open>prepareTx\<close>, the call fails with
  the error of the fetch and nothing is signed: the fetch is the only call made, so no
  \<open>partialSign\<close> of an additional signer is applied and \<open>signTransaction\<close> of the wallet
  is not invoked.
\<close>

theorem prepareTx_fetch_failure:
  assumes "getLatestBlockhash (connection s) (preflightCommitment os) = Inl e"
  shows "prepareTx lib tx additionalSigners os s =
           (Inl e, tx\<lparr>feePayer := Some (publicKey (wallet s))\<rparr>,
            [GetLatestBlockhash (preflightCommitment os)])"
  using assms by (rule prepareTx_fetch_fails)

theorem prepareTx_fetch_failure_witness:
  "getLatestBlockhash
     (connection (sender_of ((endpoint ''a'' (Inr 5) (Inr ''s''))
        \<lparr>getLatestBlockhash := \<lambda>cm. Inl (Thrown ''fetch failed'')\<rparr>) []))
     (preflightCommitment opts0) = Inl (Thrown ''fetch failed'')
   \<and> prepareTx lib0 tx0 [Some \<lparr>signer_publicKey = ''bob'', signer_secretKey = [7]\<rparr>] opts0
       (sender_of ((endpoint ''a'' (Inr 5) (Inr ''s''))
          \<lparr>getLatestBlockhash := \<lambda>cm. Inl (Thrown ''fetch failed'')\<rparr>) []) =
     (Inl (Thrown ''fetch failed''),
      \<lparr>feePayer = Some ''payer'', recentBlockhash = Some ''old'', instructions = [''transfer''],
       signatures = [''alice'']\<rparr>,
      [GetLatestBlockhash (Some ''processed'')])"
proof -
  let ?s = "sender_of ((endpoint ''a'' (Inr 5) (Inr ''s''))
          \<lparr>getLatestBlockhash := \<lambda>cm. Inl (Thrown ''fetch failed'')\<rparr>) []"
  have h: "getLatestBlockhash (connection ?s) (preflightCommitment opts0) = Inl (Thrown ''fetch failed'')"
    by (simp add: sender_of_def new_sender_def endpoint_def)
  show ?thesis
    using h prepareTx_fetch_failure [OF h, of lib0 tx0]
    by (simp add: tx0_def opts0_def sender_of_def new_sender_def wallet0_def)
qed

section \<open>Sending to the additional connections\<close>

lemma send_and_catch_fulfilled: "fst (send_and_catch c rawTx os) = Inr ()"
  by (simp add: send_and_catch_def split: sum.splits)

lemma settled_unhandled:
  "concat (map (\<lambda>p. case fst p of Inl e \<Rightarrow> [e] | Inr u \<Rightarrow> [])
     (map (\<lambda>c. send_and_catch c rawTx os) cs)) = []"
  by (induction cs) (simp_all add: send_and_catch_fulfilled)

lemma fanOut_eq:
  "sendToAdditionalConnections rawTx os s =
     (Inr (), s, [],
      map (\<lambda>i. ConnectionSendRawTransaction i rawTx os) [0..<length (additionalConnections s)]
      @ concat (map (\<lambda>c. snd (send_and_catch c rawTx os)) (additionalConnections s)))"
  using settled_unhandled [of rawTx os "additionalConnections s"]
  by (simp add: sendToAdditionalConnections_def Let_def comp_def)

text \<open>
  C7. \<open>sendToAdditionalConnections\<close> never passes the failure of an endpoint on to the
  caller: whatever the additional connections answer, the call returns normally, no
  rejection is left without a handler, and the sender, with it the primary send, is
  as before.
\<close>

theorem sendToAdditionalConnections_absorbs:
  "fst (sendToAdditionalConnections rawTx os s) = Inr ()
   \<and> fst (snd (sendToAdditionalConnections rawTx os s)) = s
   \<and> fst (snd (snd (sendToAdditionalConnections rawTx os s))) = []
   \<and> sendRawTransaction (fst (snd (sendToAdditionalConnections rawTx os s))) raw os' =
       sendRawTransaction s raw os'"
  by (simp add: fanOut_eq)

theorem sendToAdditionalConnections_absorbs_witness:
  "sendToAdditionalConnections [1, 2, 3] opts0
     (sender_of (endpoint ''a'' (Inr 5) (Inr ''s''))
        [endpoint ''b'' (Inr 7) (Inl (Thrown ''502'')), endpoint ''c'' (Inr 9) (Inr ''s'')]) =
   (Inr (),
    sender_of (endpoint ''a'' (Inr 5) (Inr ''s''))
      [endpoint ''b'' (Inr 7) (Inl (Thrown ''502'')), endpoint ''c'' (Inr 9) (Inr ''s'')],
    [],
    [ConnectionSendRawTransaction 0 [1, 2, 3] opts0,
     ConnectionSendRawTransaction 1 [1, 2, 3] opts0,
     ConsoleError ''error sending tx to additional connection b'',
     ConsoleErrorValue (Thrown ''502'')])"
proof -
  let ?s = "sender_of (endpoint ''a'' (Inr 5) (Inr ''s''))
        [endpoint ''b'' (Inr 7) (Inl (Thrown ''502'')), endpoint ''c'' (Inr 9) (Inr ''s'')]"
  have ev: "snd (snd (snd (sendToAdditionalConnections [1, 2, 3] opts0 ?s))) =
     [ConnectionSendRawTransaction 0 [1, 2, 3] opts0,
      ConnectionSendRawTransaction 1 [1, 2, 3] opts0,
      ConsoleError ''error sending tx to additional connection b'',
      ConsoleErrorValue (Thrown ''502'')]"
    by (simp add: sendToAdditionalConnections_def sender_of_def new_sender_def endpoint_def
        send_and_catch_def upt_rec)
  show ?thesis
    using sendToAdditionalConnections_absorbs [of "[1, 2, 3]" opts0 ?s] ev
    by (simp add: prod_eq_iff)
qed

section \<open>Adding a connection\<close>

lemma add_known:
  assumes "rpcEndpoint c \<in> rpcEndpoint ` set (additionalConnections s)"
  shows "addAdditionalConnection c s = s"
proof -
  have "filter (\<lambda>x. rpcEndpoint x = rpcEndpoint c) (additionalConnections s) \<noteq> []"
    using assms by (auto simp: filter_empty_conv)
  then show ?thesis by (simp add: addAdditionalConnection_def)
qed

lemma add_new:
  assumes "rpcEndpoint c \<notin> rpcEndpoint ` set (additionalConnections s)"
  shows "addAdditionalConnection c s = s\<lparr>additionalConnections := additionalConnections s @ [c]\<rparr>"
proof -
  have "filter (\<lambda>x. rpcEndpoint x = rpcEndpoint c) (additionalConnections s) = []"
    unfolding filter_empty_conv using assms by (metis imageI)
  then show ?thesis by (simp add: addAdditionalConnection_def)
qed

lemma add_registers: "rpcEndpoint c \<in> rpcEndpoint ` set (additionalConnections (addAdditionalConnection c s))"
  by (cases "rpcEndpoint c \<in> rpcEndpoint ` set (additionalConnections s)")
    (simp_all add: add_known add_new)

lemma add_twice:
  assumes "rpcEndpoint c' = rpcEndpoint c"
  shows "addAdditionalConnection c' (addAdditionalConnection c s) = addAdditionalConnection c s"
  using add_registers [of c s] assms by (simp add: add_known)

lemma add_once:
  assumes "rpcEndpoint c \<notin> rpcEndpoint ` set (additionalConnections s)"
  shows "length (filter (\<lambda>x. rpcEndpoint x = rpcEndpoint c)
           (additionalConnections (addAdditionalConnection c s))) = 1"
proof -
  have "filter (\<lambda>x. rpcEndpoint x = rpcEndpoint c) (additionalConnections s) = []"
    unfolding filter_empty_conv using assms by (metis imageI)
  then show ?thesis by (simp add: add_new [OF assms])
qed

text \<open>
  C8. \<open>addAdditionalConnection\<close> is idempotent in the address of the endpoint: with a
  connection whose address is that of an additional connection already in the list, it
  leaves the sender unchanged; calling it twice with the same address gives the sender
  of the first call, in which, the address being new, exactly one additional connection
  has that address.
\<close>

theorem addAdditionalConnection_idempotent:
  "(rpcEndpoint c \<in> rpcEndpoint ` set (additionalConnections s) \<longrightarrow>
      addAdditionalConnection c s = s)
   \<and> (rpcEndpoint c' = rpcEndpoint c \<longrightarrow>
      addAdditionalConnection c' (addAdditionalConnection c s) = addAdditionalConnection c s)
   \<and> (rpcEndpoint c \<notin> rpcEndpoint ` set (additionalConnections s) \<and> rpcEndpoint c' = rpcEndpoint c \<longrightarrow>
      length (filter (\<lambda>x. rpcEndpoint x = rpcEndpoint c)
        (additionalConnections (addAdditionalConnection c' (addAdditionalConnection c s)))) = 1)"
  using add_known [of c s] add_twice [of c' c s] add_once [of c s] by simp

theorem addAdditionalConnection_idempotent_witness:
  "rpcEndpoint (endpoint ''b'' (Inr 8) (Inr ''t'')) = rpcEndpoint (endpoint ''b'' (Inr 7) (Inr ''s''))
   \<and> rpcEndpoint (endpoint ''b'' (Inr 7) (Inr ''s'')) \<notin>
       rpcEndpoint ` set (additionalConnections (sender_of (endpoint ''a'' (Inr 5) (Inr ''s'')) []))
   \<and> rpcEndpoint (endpoint ''b'' (Inr 8) (Inr ''t'')) \<in>
       rpcEndpoint ` set (additionalConnections
         (sender_of (endpoint ''a'' (Inr 5) (Inr ''s'')) [endpoint ''b'' (Inr 7) (Inr ''s'')]))
   \<and> addAdditionalConnection (endpoint ''b'' (Inr 8) (Inr ''t''))
       (sender_of (endpoint ''a'' (Inr 5) (Inr ''s'')) [endpoint ''b'' (Inr 7) (Inr ''s'')]) =
     sender_of (endpoint ''a'' (Inr 5) (Inr ''s'')) [endpoint ''b'' (Inr 7) (Inr ''s'')]
   \<and> addAdditionalConnection (endpoint ''b'' (Inr 8) (Inr ''t''))
       (addAdditionalConnection (endpoint ''b'' (Inr 7) (Inr ''s''))
          (sender_of (endpoint ''a'' (Inr 5) (Inr ''s'')) [])) =
     addAdditionalConnection (endpoint ''b'' (Inr 7) (Inr ''s''))
       (sender_of (endpoint ''a'' (Inr 5) (Inr ''s'')) [])
   \<and> length (filter (\<lambda>x. rpcEndpoint x = ''b'')
       (additionalConnections
          (addAdditionalConnection (endpoint ''b'' (Inr 8) (Inr ''t''))
             (addAdditionalConnection (endpoint ''b'' (Inr 7) (Inr ''s''))
                (sender_of (endpoint ''a'' (Inr 5) (Inr ''s'')) []))))) = 1"
proof -
  let ?b = "endpoint ''b'' (Inr 7) (Inr ''s'')"
  let ?b' = "endpoint ''b'' (Inr 8) (Inr ''t'')"
  let ?s0 = "sender_of (endpoint ''a'' (Inr 5) (Inr ''s'')) []"
  let ?s1 = "sender_of (endpoint ''a'' (Inr 5) (Inr ''s'')) [?b]"
  have e: "rpcEndpoint ?b' = rpcEndpoint ?b" "rpcEndpoint ?b = ''b''" by (simp_all add: endpoint_def)
  have n: "rpcEndpoint ?b \<notin> rpcEndpoint ` set (additionalConnections ?s0)"
    by (simp add: sender_of_def new_sender_def)
  have m: "rpcEndpoint ?b' \<in> rpcEndpoint ` set (additionalConnections ?s1)"
    by (simp add: sender_of_def new_sender_def endpoint_def)
  have r1: "addAdditionalConnection ?b' ?s1 = ?s1"
    using addAdditionalConnection_idempotent [of ?b' ?s1 ?b'] m by blast
  have r2: "addAdditionalConnection ?b' (addAdditionalConnection ?b ?s0) =
      addAdditionalConnection ?b ?s0"
    using addAdditionalConnection_idempotent [of ?b ?s0 ?b'] e(1) by blast
  have r3: "length (filter (\<lambda>x. rpcEndpoint x = rpcEndpoint ?b)
      (additionalConnections (addAdditionalConnection ?b' (addAdditionalConnection ?b ?s0)))) = 1"
    using addAdditionalConnection_idempotent [of ?b ?s0 ?b'] n e(1) by blast
  show ?thesis
    using e n m r1 r2 r3 by simp
qed

section \<open>The counter over the life of a sender\<close>

lemma exec_counter:
  "timeoutCount (exec x s) = timeoutCount s + (if op_times_out x s then 1 else 0)"
proof (cases x)
  case (OpConfirmTransaction env sg cm)
  then show ?thesis using confirm_counter [of env sg cm s] by simp
next
  case (OpAddAdditionalConnection c)
  then show ?thesis by (simp add: addAdditionalConnection_def Let_def)
next
  case (OpSendToAdditionalConnections rawTx os)
  then show ?thesis by (simp add: fanOut_eq)
qed simp_all

lemma run_counter: "timeoutCount s \<le> timeoutCount (run xs s)"
proof (induction xs arbitrary: s)
  case Nil
  then show ?case by simp
next
  case (Cons x xs)
  have "timeoutCount s \<le> timeoutCount (exec x s)" by (simp add: exec_counter)
  also have "\<dots> \<le> timeoutCount (run xs (exec x s))" by (rule Cons.IH)
  finally show ?case by simp
qed

text \<open>
  C9. The value of \<open>getTimeoutCount\<close> never decreases over the life of a sender: every
  operation leaves it unchanged, except a \<open>confirmTransaction\<close> that reaches its
  deadline, which increases it by 1; so after any sequence of operations it is at least
  what it was.
\<close>

theorem timeoutCount_monotone:
  "getTimeoutCount (exec x s) = getTimeoutCount s + (if op_times_out x s then 1 else 0)
   \<and> getTimeoutCount s \<le> getTimeoutCount (run xs s)"
  using exec_counter [of x s] run_counter [of s xs] by (simp add: getTimeoutCount_def)

theorem timeoutCount_monotone_witness:
  "getTimeoutCount (run
     [OpConfirmTransaction (env_of []) ''sig64'' None,
      OpAddAdditionalConnection (endpoint ''b'' (Inr 7) (Inr ''s'')),
      OpGetTimeoutCount,
      OpConfirmTransaction (env_of [[Invoke 1 ok \<lparr>slot = 3\<rparr>]]) ''sig64'' None,
      OpConfirmTransaction (env_of []) ''short'' None,
      OpConfirmTransaction (env_of [[]]) ''sig64'' None]
     (sender_of (endpoint ''a'' (Inr 5) (Inr ''s'')) [])) = 2
   \<and> getTimeoutCount (sender_of (endpoint ''a'' (Inr 5) (Inr ''s'')) []) \<le>
     getTimeoutCount (run
     [OpConfirmTransaction (env_of []) ''sig64'' None,
      OpAddAdditionalConnection (endpoint ''b'' (Inr 7) (Inr ''s'')),
      OpGetTimeoutCount,
      OpConfirmTransaction (env_of [[Invoke 1 ok \<lparr>slot = 3\<rparr>]]) ''sig64'' None,
      OpConfirmTransaction (env_of []) ''short'' None,
      OpConfirmTransaction (env_of [[]]) ''sig64'' None]
     (sender_of (endpoint ''a'' (Inr 5) (Inr ''s'')) []))"
proof -
  let ?xs = "[OpConfirmTransaction (env_of []) ''sig64'' None,
      OpAddAdditionalConnection (endpoint ''b'' (Inr 7) (Inr ''s'')),
      OpGetTimeoutCount,
      OpConfirmTransaction (env_of [[Invoke 1 ok \<lparr>slot = 3\<rparr>]]) ''sig64'' None,
      OpConfirmTransaction (env_of []) ''short'' None,
      OpConfirmTransaction (env_of [[]]) ''sig64'' None]"
  let ?s = "sender_of (endpoint ''a'' (Inr 5) (Inr ''s'')) []"
  have "getTimeoutCount (run ?xs ?s) = 2"
    by (simp add: eval_confirm addAdditionalConnection_def getTimeoutCount_def)
  then show ?thesis
    using timeoutCount_monotone [of OpGetTimeoutCount ?s ?xs] by simp
qed

section \<open>Transactions signed by the caller\<close>

lemma send_preSigned_eq:
  "send lib tx additionalSigners os (Some True) s =
     (case serialize lib tx of
        Inl e \<Rightarrow> (Inl e, tx, [])
      | Inr raw \<Rightarrow>
          (sendRawTransaction s raw (case os of None \<Rightarrow> opts s | Some x \<Rightarrow> x), tx,
           [SendRawTransaction raw (case os of None \<Rightarrow> opts s | Some x \<Rightarrow> x)]))"
  by (simp add: send_def Let_def split: sum.splits)

lemma sendVersioned_preSigned_eq:
  "sendVersionedTransaction lib vtx additionalSigners os (Some True) s =
     (case v_serialize lib vtx of
        Inl e \<Rightarrow> (Inl e, vtx, [])
      | Inr raw \<Rightarrow>
          (sendRawTransaction s raw (case os of None \<Rightarrow> opts s | Some x \<Rightarrow> x), vtx,
           [SendRawTransaction raw (case os of None \<Rightarrow> opts s | Some x \<Rightarrow> x)]))"
  by (simp add: sendVersionedTransaction_def Let_def split: sum.splits)

text \<open>
  C10. With \<open>preSigned\<close> set, \<open>send\<close> and \<open>sendVersionedTransaction\<close> serialize the
  transaction as given and pass the bytes to \<open>sendRawTransaction\<close>: that is the only
  call made (no blockhash is fetched, nothing is signed) and the transaction object,
  its fee payer included, is as the caller gave it.
\<close>

theorem send_preSigned:
  "send lib tx additionalSigners os (Some True) s =
     (case serialize lib tx of
        Inl e \<Rightarrow> (Inl e, tx, [])
      | Inr raw \<Rightarrow>
          (sendRawTransaction s raw (case os of None \<Rightarrow> opts s | Some x \<Rightarrow> x), tx,
           [SendRawTransaction raw (case os of None \<Rightarrow> opts s | Some x \<Rightarrow> x)]))
   \<and> sendVersionedTransaction lib vtx additionalSigners os (Some True) s =
     (case v_serialize lib vtx of
        Inl e \<Rightarrow> (Inl e, vtx, [])
      | Inr raw \<Rightarrow>
          (sendRawTransaction s raw (case os of None \<Rightarrow> opts s | Some x \<Rightarrow> x), vtx,
           [SendRawTransaction raw (case os of None \<Rightarrow> opts s | Some x \<Rightarrow> x)]))"
  by (simp only: send_preSigned_eq sendVersioned_preSigned_eq)

theorem send_preSigned_witness:
  "send lib0 tx0 (Some [Some \<lparr>signer_publicKey = ''bob'', signer_secretKey = [7]\<rparr>]) None (Some True)
     ((sender_of (endpoint ''a'' (Inr 5) (Inr ''s'')) [])
        \<lparr>sendRawTransaction := \<lambda>raw os. Inr \<lparr>txSig = ''sig64'', txSlot = 12\<rparr>\<rparr>) =
   (Inr \<lparr>txSig = ''sig64'', txSlot = 12\<rparr>, tx0, [SendRawTransaction [8] opts0])
   \<and> sendVersionedTransaction lib0 vtx0 None None (Some True)
     ((sender_of (endpoint ''a'' (Inr 5) (Inr ''s'')) [])
        \<lparr>sendRawTransaction := \<lambda>raw os. Inr \<lparr>txSig = ''sig64'', txSlot = 12\<rparr>\<rparr>) =
   (Inr \<lparr>txSig = ''sig64'', txSlot = 12\<rparr>, vtx0, [SendRawTransaction [4] opts0])"
  using send_preSigned [of lib0 tx0
      "Some [Some \<lparr>signer_publicKey = ''bob'', signer_secretKey = [7]\<rparr>]" None
      "(sender_of (endpoint ''a'' (Inr 5) (Inr ''s'')) [])
        \<lparr>sendRawTransaction := \<lambda>raw os. Inr \<lparr>txSig = ''sig64'', txSlot = 12\<rparr>\<rparr>" vtx0]
    send_preSigned [of lib0 tx0 None None
      "(sender_of (endpoint ''a'' (Inr 5) (Inr ''s'')) [])
        \<lparr>sendRawTransaction := \<lambda>raw os. Inr \<lparr>txSig = ''sig64'', txSlot = 12\<rparr>\<rparr>" vtx0]
  by (simp add: lib0_def tx0_def vtx0_def sender_of_def new_sender_def)

end
